theory Spec2Isabelle
  imports Complex_Main
begin

section \<open>Values handed to the ticket service\<close>

text \<open>
  The three ticket categories. In the JavaScript they are the strings \<^verbatim>\<open>'INFANT'\<close>,
  \<^verbatim>\<open>'CHILD'\<close> and \<^verbatim>\<open>'ADULT'\<close>, used as the keys of the price table and of the
  counting object.
\<close>

datatype ticket_type = INFANT | CHILD | ADULT

text \<open>
  Modelled from the spec: \<^verbatim>\<open>src/pairtest/lib/TicketTypeRequest.js\<close> is imported by the
  service but is not among the sources. The spec describes it as an immutable value with a
  category out of the fixed enumeration and an integer quantity; the tests build requests with
  quantity 0, so the quantity is any integer and the service itself checks that it is positive.
  In JavaScript the quantity is a double with an integral value; the theorems below hold for
  every integer quantity, those that a double holds among them. The selectors carry the
  names of the two getters the service calls.
\<close>

datatype TicketTypeRequest =
  TicketTypeRequest (getTicketType: ticket_type) (getNoOfTickets: int)

text \<open>
  An element of the rest parameter \<^verbatim>\<open>...ticketTypeRequests\<close>: an instance of the class, or
  any other JavaScript value (the tests pass a plain object literal).
\<close>

datatype js_arg = Instance TicketTypeRequest | Other

text \<open>
  The \<^verbatim>\<open>accountId\<close> argument is an arbitrary JavaScript value. Finite numbers are rationals
  here (every finite double is one); the other constructors cover what the tests pass
  (\<^verbatim>\<open>'abc'\<close>, \<^verbatim>\<open>null\<close>) and the remaining non-finite numbers.
\<close>

datatype js_value =
  Num rat | NaN | Infinity | NegInfinity | Str string | Null | Undefined

text \<open>\<^verbatim>\<open>Number.isInteger\<close>: true exactly for number values that are finite and integral.\<close>

fun Number_isInteger :: "js_value \<Rightarrow> bool" where
  "Number_isInteger (Num r) = (of_int \<lfloor>r\<rfloor> = r)"
| "Number_isInteger _ = False"


section \<open>The numbers the service computes with\<close>

text \<open>
  Quantities, counts, prices, the limit and the totals are JavaScript numbers, that is
  IEEE 754 doubles, and the service adds, multiplies and compares them as such. All of them
  start from integers (request quantities, the results of \<^verbatim>\<open>parseInt\<close>, the literals of the
  code), and sums and products of integral doubles are again integral, infinite or
  \<^verbatim>\<open>NaN\<close>. So a number is \<open>Fin n\<close>, the double whose value is the integer \<open>n\<close>, or one of
  the three special values. The two zeros of IEEE 754 are not told apart: no operation of
  the service (\<^verbatim>\<open>+\<close>, \<^verbatim>\<open>*\<close>, \<^verbatim>\<open><\<close>, \<^verbatim>\<open>>\<close>, \<^verbatim>\<open><=\<close>, \<^verbatim>\<open>===\<close>) does. Every result
  of an operation is rounded to a double by \<open>number_value\<close> below.
\<close>

datatype number = Fin int | PlusInfinity | MinusInfinity | NotANumber

text \<open>
  A double carries 53 significant bits. \<open>expo m e\<close> is the least exponent from \<open>e\<close> on
  for which the magnitude \<open>m\<close> fits into 53 bits times \<open>2 ^ expo\<close>: the spacing of the
  doubles around \<open>m\<close> is \<open>2 ^ expo m 0\<close>. (Integers never reach the subnormal range.)
\<close>

function expo :: "int \<Rightarrow> nat \<Rightarrow> nat" where
  "expo m e = (if m < 2 ^ (53 + e) then e else expo m (Suc e))"
  by pat_completeness auto
termination
proof (relation "measure (\<lambda>(m, e). nat (m + 1 - 2 ^ (53 + e)))")
  show "wf (measure (\<lambda>(m :: int, e :: nat). nat (m + 1 - 2 ^ (53 + e))))"
    by simp
next
  fix m :: int and e :: nat
  assume "\<not> m < 2 ^ (53 + e)"
  moreover have "(0 :: int) < 2 ^ (53 + e)" by simp
  ultimately show "((m, Suc e), (m, e)) \<in> measure (\<lambda>(m, e). nat (m + 1 - 2 ^ (53 + e)))"
    by simp
qed

declare expo.simps [simp del]

text \<open>
  Rounding a magnitude \<open>m\<close> to a multiple of the spacing \<open>q\<close>: to the nearest one, and
  of two equally near ones to the even multiple (the rounding mode of JavaScript).
\<close>

definition round_half_even :: "int \<Rightarrow> int \<Rightarrow> int" where
  "round_half_even q m =
     (let k = m div q; r = m mod q
      in if 2 * r < q \<or> (2 * r = q \<and> even k) then k * q else (k + 1) * q)"

text \<open>
  The number value of a mathematical integer: the nearest double, and an infinity from
  \<open>2 ^ 1024\<close> on (the largest double is \<open>(2 ^ 53 - 1) * 2 ^ 971\<close>).
\<close>

definition number_value :: "int \<Rightarrow> number" where
  "number_value n =
     (let m = \<bar>n\<bar>;
          v = round_half_even (2 ^ expo m 0) m
      in if 2 ^ 1024 \<le> v then (if n < 0 then MinusInfinity else PlusInfinity)
         else Fin (if n < 0 then - v else v))"

text \<open>\<^verbatim>\<open>x + y\<close>: the exact sum, rounded; infinities of opposite sign give \<^verbatim>\<open>NaN\<close>.\<close>

fun num_add :: "number \<Rightarrow> number \<Rightarrow> number" where
  "num_add (Fin a) (Fin b) = number_value (a + b)"
| "num_add NotANumber _ = NotANumber"
| "num_add _ NotANumber = NotANumber"
| "num_add PlusInfinity MinusInfinity = NotANumber"
| "num_add MinusInfinity PlusInfinity = NotANumber"
| "num_add PlusInfinity _ = PlusInfinity"
| "num_add _ PlusInfinity = PlusInfinity"
| "num_add MinusInfinity _ = MinusInfinity"
| "num_add _ MinusInfinity = MinusInfinity"

text \<open>The sign of a number that is not \<^verbatim>\<open>NaN\<close>.\<close>

fun num_sgn :: "number \<Rightarrow> int" where
  "num_sgn (Fin a) = sgn a"
| "num_sgn PlusInfinity = 1"
| "num_sgn MinusInfinity = - 1"
| "num_sgn NotANumber = 0"

text \<open>
  \<^verbatim>\<open>x * y\<close>: the exact product, rounded; zero times an infinity gives \<^verbatim>\<open>NaN\<close>, anything
  else times an infinity the infinity of the product's sign.
\<close>

definition num_mul :: "number \<Rightarrow> number \<Rightarrow> number" where
  "num_mul x y =
     (case (x, y) of
        (Fin a, Fin b) \<Rightarrow> number_value (a * b)
      | _ \<Rightarrow>
          if x = NotANumber \<or> y = NotANumber \<or> num_sgn x * num_sgn y = 0 then NotANumber
          else if 0 < num_sgn x * num_sgn y then PlusInfinity
          else MinusInfinity)"

text \<open>\<^verbatim>\<open>x < y\<close>; every comparison with \<^verbatim>\<open>NaN\<close> is false.\<close>

fun num_lt :: "number \<Rightarrow> number \<Rightarrow> bool" where
  "num_lt (Fin a) (Fin b) = (a < b)"
| "num_lt NotANumber _ = False"
| "num_lt _ NotANumber = False"
| "num_lt _ MinusInfinity = False"
| "num_lt PlusInfinity _ = False"
| "num_lt MinusInfinity _ = True"
| "num_lt _ PlusInfinity = True"

text \<open>\<^verbatim>\<open>x > y\<close> is \<^verbatim>\<open>y < x\<close>.\<close>

definition num_gt :: "number \<Rightarrow> number \<Rightarrow> bool" where
  "num_gt x y = num_lt y x"

text \<open>\<^verbatim>\<open>x <= y\<close>: false with a \<^verbatim>\<open>NaN\<close>, otherwise the negation of \<^verbatim>\<open>y < x\<close>.\<close>

definition num_le :: "number \<Rightarrow> number \<Rightarrow> bool" where
  "num_le x y = (x \<noteq> NotANumber \<and> y \<noteq> NotANumber \<and> \<not> num_lt y x)"

text \<open>\<^verbatim>\<open>x === y\<close> on numbers: \<^verbatim>\<open>NaN\<close> equals nothing, itself included.\<close>

definition num_eq :: "number \<Rightarrow> number \<Rightarrow> bool" where
  "num_eq x y = (x \<noteq> NotANumber \<and> x = y)"

text \<open>The global \<^verbatim>\<open>isNaN\<close> on a number.\<close>

definition isNaN :: "number \<Rightarrow> bool" where
  "isNaN x = (x = NotANumber)"


section \<open>Errors and collaborators\<close>

text \<open>
  Every validation failure is an \<^verbatim>\<open>InvalidPurchaseException\<close>; the constructors stand for
  the seven messages, in the order of their \<^verbatim>\<open>throw\<close> sites:
  \<^item> \<open>InvalidAccount\<close>: "Account ID must be a positive integer";
  \<^item> \<open>NoRequests\<close>: "At least one ticket type request must be provided";
  \<^item> \<open>InvalidRequest\<close>: "Invalid ticket type request";
  \<^item> \<open>InvalidQuantity\<close>: "Number of tickets must be greater than zero";
  \<^item> \<open>LimitExceeded m\<close>: "Cannot purchase more than m tickets at a time", the limit being
    interpolated into the text;
  \<^item> \<open>MissingAdult\<close>: "Child and Infant tickets cannot be purchased without at least one
    Adult ticket";
  \<^item> \<open>InfantRatioExceeded\<close>: "Number of Infant tickets cannot exceed the number of Adult
    tickets (Infants sit on Adult laps)".
\<close>

datatype InvalidPurchaseException =
  InvalidAccount
| NoRequests
| InvalidRequest
| InvalidQuantity
| LimitExceeded number
| MissingAdult
| InfantRatioExceeded

text \<open>
  The two collaborators only receive calls. A run of the service is observed through the
  sequence of calls it has made, oldest first; both calls return nothing and are taken to
  succeed, as the spec has it.
\<close>

datatype call = makePayment js_value number | reserveSeat js_value number

type_synonym counts = "ticket_type \<Rightarrow> number"


section \<open>Methods that the two versions of the class share word for word\<close>

text \<open>
  \<^verbatim>\<open>if (!Number.isInteger(accountId) || accountId <= 0) throw ...\<close>. The comparison is
  only reached for an integral number, so it is a comparison of numbers.
\<close>

definition validateAccountId :: "js_value \<Rightarrow> InvalidPurchaseException + unit" where
  "validateAccountId accountId =
     (if \<not> Number_isInteger accountId \<or> (case accountId of Num r \<Rightarrow> r \<le> 0 | _ \<Rightarrow> False)
      then Inl InvalidAccount else Inr ())"

text \<open>The rest parameter is always an array, so only its length decides.\<close>

definition validateTicketRequestsExist :: "js_arg list \<Rightarrow> InvalidPurchaseException + unit" where
  "validateTicketRequestsExist ticketTypeRequests =
     (if length ticketTypeRequests = 0 then Inl NoRequests else Inr ())"

text \<open>
  The \<^verbatim>\<open>for ... of\<close> loop of \<^verbatim>\<open>#countTicketsByType\<close>, with the counting object as the
  accumulator; a \<^verbatim>\<open>throw\<close> leaves the loop at once. The quantity of a request is an integer
  that a double holds; \<^verbatim>\<open>+=\<close> adds it as a double.
\<close>

fun countTicketsByType_loop ::
  "counts \<Rightarrow> js_arg list \<Rightarrow> InvalidPurchaseException + counts" where
  "countTicketsByType_loop counts [] = Inr counts"
| "countTicketsByType_loop counts (Other # rest) = Inl InvalidRequest"
| "countTicketsByType_loop counts (Instance request # rest) =
     (let ticketType = getTicketType request;
          numberOfTickets = getNoOfTickets request
      in if numberOfTickets \<le> 0 then Inl InvalidQuantity
         else countTicketsByType_loop
                (counts(ticketType := num_add (counts ticketType) (Fin numberOfTickets)))
                rest)"

definition countTicketsByType :: "js_arg list \<Rightarrow> InvalidPurchaseException + counts" where
  "countTicketsByType ticketTypeRequests =
     countTicketsByType_loop (\<lambda>_. Fin 0) ticketTypeRequests"

definition calculateTotalSeats :: "counts \<Rightarrow> number" where
  "calculateTotalSeats ticketCounts = num_add (ticketCounts CHILD) (ticketCounts ADULT)"


section \<open>The first version of the class: constants written into the code\<close>

fun TICKET_PRICES1 :: "ticket_type \<Rightarrow> number" where
  "TICKET_PRICES1 INFANT = Fin 0"
| "TICKET_PRICES1 CHILD = Fin 15"
| "TICKET_PRICES1 ADULT = Fin 25"

definition MAX_TICKETS1 :: number where
  "MAX_TICKETS1 = Fin 25"

definition validateBusinessRules1 :: "counts \<Rightarrow> InvalidPurchaseException + unit" where
  "validateBusinessRules1 ticketCounts =
     (let totalTickets =
            num_add (num_add (ticketCounts INFANT) (ticketCounts CHILD)) (ticketCounts ADULT)
      in if num_gt totalTickets MAX_TICKETS1 then Inl (LimitExceeded MAX_TICKETS1)
         else if (num_gt (ticketCounts CHILD) (Fin 0) \<or> num_gt (ticketCounts INFANT) (Fin 0))
                 \<and> num_eq (ticketCounts ADULT) (Fin 0)
           then Inl MissingAdult
         else if num_gt (ticketCounts INFANT) (ticketCounts ADULT) then Inl InfantRatioExceeded
         else Inr ())"

definition calculateTotalAmount1 :: "counts \<Rightarrow> number" where
  "calculateTotalAmount1 ticketCounts =
     num_add
       (num_add (num_mul (ticketCounts INFANT) (TICKET_PRICES1 INFANT))
                (num_mul (ticketCounts CHILD) (TICKET_PRICES1 CHILD)))
       (num_mul (ticketCounts ADULT) (TICKET_PRICES1 ADULT))"

text \<open>
  \<^verbatim>\<open>purchaseTickets\<close>: the calls made so far go in, the outcome and the calls made so far
  come out. An exception ends the method before either collaborator is reached.
\<close>

definition purchaseTickets1 ::
  "js_value \<Rightarrow> js_arg list \<Rightarrow> call list \<Rightarrow> (InvalidPurchaseException + unit) \<times> call list" where
  "purchaseTickets1 accountId ticketTypeRequests calls =
     (case validateAccountId accountId of
        Inl e \<Rightarrow> (Inl e, calls)
      | Inr _ \<Rightarrow>
     (case validateTicketRequestsExist ticketTypeRequests of
        Inl e \<Rightarrow> (Inl e, calls)
      | Inr _ \<Rightarrow>
     (case countTicketsByType ticketTypeRequests of
        Inl e \<Rightarrow> (Inl e, calls)
      | Inr ticketCounts \<Rightarrow>
     (case validateBusinessRules1 ticketCounts of
        Inl e \<Rightarrow> (Inl e, calls)
      | Inr _ \<Rightarrow>
        (let totalAmount = calculateTotalAmount1 ticketCounts;
             totalSeats = calculateTotalSeats ticketCounts;
             calls = calls @ [makePayment accountId totalAmount];
             calls = calls @ [reserveSeat accountId totalSeats]
         in (Inr (), calls))))))"


section \<open>The second version of the class: constants read from the configuration\<close>

text \<open>
  The private fields that the constructor copies from the configuration object. The two
  collaborator fields are the trace above.
\<close>

record TicketService =
  TICKET_PRICES :: "ticket_type \<Rightarrow> number"
  MAX_TICKETS :: number
  ENFORCE_INFANT_ADULT_RATIO :: bool

definition validateBusinessRules2 ::
  "TicketService \<Rightarrow> counts \<Rightarrow> InvalidPurchaseException + unit" where
  "validateBusinessRules2 this ticketCounts =
     (let totalTickets =
            num_add (num_add (ticketCounts INFANT) (ticketCounts CHILD)) (ticketCounts ADULT)
      in if num_gt totalTickets (MAX_TICKETS this) then Inl (LimitExceeded (MAX_TICKETS this))
         else if (num_gt (ticketCounts CHILD) (Fin 0) \<or> num_gt (ticketCounts INFANT) (Fin 0))
                 \<and> num_eq (ticketCounts ADULT) (Fin 0)
           then Inl MissingAdult
         else if ENFORCE_INFANT_ADULT_RATIO this
                 \<and> num_gt (ticketCounts INFANT) (ticketCounts ADULT)
           then Inl InfantRatioExceeded
         else Inr ())"

definition calculateTotalAmount2 :: "TicketService \<Rightarrow> counts \<Rightarrow> number" where
  "calculateTotalAmount2 this ticketCounts =
     num_add
       (num_add (num_mul (ticketCounts INFANT) (TICKET_PRICES this INFANT))
                (num_mul (ticketCounts CHILD) (TICKET_PRICES this CHILD)))
       (num_mul (ticketCounts ADULT) (TICKET_PRICES this ADULT))"

definition purchaseTickets2 ::
  "TicketService \<Rightarrow> js_value \<Rightarrow> js_arg list \<Rightarrow> call list
     \<Rightarrow> (InvalidPurchaseException + unit) \<times> call list" where
  "purchaseTickets2 this accountId ticketTypeRequests calls =
     (case validateAccountId accountId of
        Inl e \<Rightarrow> (Inl e, calls)
      | Inr _ \<Rightarrow>
     (case validateTicketRequestsExist ticketTypeRequests of
        Inl e \<Rightarrow> (Inl e, calls)
      | Inr _ \<Rightarrow>
     (case countTicketsByType ticketTypeRequests of
        Inl e \<Rightarrow> (Inl e, calls)
      | Inr ticketCounts \<Rightarrow>
     (case validateBusinessRules2 this ticketCounts of
        Inl e \<Rightarrow> (Inl e, calls)
      | Inr _ \<Rightarrow>
        (let totalAmount = calculateTotalAmount2 this ticketCounts;
             totalSeats = calculateTotalSeats ticketCounts;
             calls = calls @ [makePayment accountId totalAmount];
             calls = calls @ [reserveSeat accountId totalSeats]
         in (Inr (), calls))))))"


section \<open>The configuration object\<close>

text \<open>
  \<^verbatim>\<open>process.env\<close> as the module finds it, after \<^verbatim>\<open>dotenv\<close> has filled in the variables of
  the \<^verbatim>\<open>.env\<close> file: a variable is unset or holds a string. Strings are taken over the
  characters U+0000 to U+00FF, one \<open>char\<close> for each.
\<close>

type_synonym env = "string \<rightharpoonup> string"

text \<open>
  The plain \<^verbatim>\<open>Error\<close>s of the configuration module:
  \<^item> \<open>NotAnInteger key value\<close>: "Environment variable key must be a valid integer, got: value";
  \<^item> \<open>MaxTicketsNotPositive\<close>: "MAX_TICKETS must be a positive integer";
  \<^item> \<open>NegativePrice\<close>: "Ticket prices must be non-negative";
  \<^item> \<open>AdultPriceNotPositive\<close>: "Adult ticket price must be greater than zero".
\<close>

datatype Error =
  NotAnInteger string string
| MaxTicketsNotPositive
| NegativePrice
| AdultPriceNotPositive

text \<open>
  The built-in \<^verbatim>\<open>parseInt(value, 10)\<close>, after the language standard: leading white space
  is dropped, one sign is read, then the longest run of decimal digits; no digit at all gives
  \<^verbatim>\<open>NaN\<close>. The result is the number value of the integer read: the nearest double, as
  the engine of Node computes it for radix 10, or an infinity for a run of digits that
  stands for \<open>2 ^ 1024\<close> or more.
\<close>

definition isWhiteSpace :: "char \<Rightarrow> bool" where
  "isWhiteSpace c = (of_char c \<in> {9, 10, 11, 12, 13, 32, 160 :: nat})"

definition isDigit :: "char \<Rightarrow> bool" where
  "isDigit c = (48 \<le> (of_char c :: nat) \<and> (of_char c :: nat) \<le> 57)"

definition digitValue :: "char \<Rightarrow> int" where
  "digitValue c = int (of_char c) - 48"

definition parseInt10 :: "string \<Rightarrow> number" where
  "parseInt10 string =
     (let S = dropWhile isWhiteSpace string;
          sign = (if S \<noteq> [] \<and> hd S = CHR ''-'' then - 1 else 1);
          S = (if S \<noteq> [] \<and> (hd S = CHR ''+'' \<or> hd S = CHR ''-'') then tl S else S);
          Z = takeWhile isDigit S
      in if Z = [] then NotANumber
         else number_value (sign * foldl (\<lambda>n c. 10 * n + digitValue c) 0 Z))"

text \<open>The built-in \<^verbatim>\<open>String.prototype.toLowerCase\<close> on the same range of characters.\<close>

definition toLowerCase :: "string \<Rightarrow> string" where
  "toLowerCase value =
     map (\<lambda>c. let n = of_char c :: nat
              in if (65 \<le> n \<and> n \<le> 90) \<or> (192 \<le> n \<and> n \<le> 222 \<and> n \<noteq> 215)
                 then char_of (n + 32) else c) value"

record Config =
  maxTickets :: number
  ticketPrices :: "ticket_type \<Rightarrow> number"
  enforceInfantAdultRatio :: bool
  nodeEnv :: string

definition getEnvAsInt :: "env \<Rightarrow> string \<Rightarrow> number \<Rightarrow> Error + number" where
  "getEnvAsInt process_env key defaultValue =
     (case process_env key of
        None \<Rightarrow> Inr defaultValue
      | Some value \<Rightarrow>
          if value = [] then Inr defaultValue
          else (let parsed = parseInt10 value
                in if isNaN parsed then Inl (NotAnInteger key value) else Inr parsed))"

definition getEnvAsBool :: "env \<Rightarrow> string \<Rightarrow> bool \<Rightarrow> bool" where
  "getEnvAsBool process_env key defaultValue =
     (case process_env key of
        None \<Rightarrow> defaultValue
      | Some value \<Rightarrow>
          if value = [] then defaultValue
          else toLowerCase value = ''true'' \<or> value = ''1'')"

definition validate :: "Config \<Rightarrow> Error + unit" where
  "validate this =
     (if num_le (maxTickets this) (Fin 0) then Inl MaxTicketsNotPositive
      else if num_lt (ticketPrices this INFANT) (Fin 0)
              \<or> num_lt (ticketPrices this CHILD) (Fin 0)
              \<or> num_lt (ticketPrices this ADULT) (Fin 0)
        then Inl NegativePrice
      else if num_le (ticketPrices this ADULT) (Fin 0) then Inl AdultPriceNotPositive
      else Inr ())"

text \<open>
  The constructor reads the fields in the order of the source, stops at the first variable
  that does not parse, and validates last. The module exports the one object it builds
  when it is loaded.
\<close>

definition Config_constructor :: "env \<Rightarrow> Error + Config" where
  "Config_constructor process_env =
     (case getEnvAsInt process_env ''MAX_TICKETS'' (Fin 25) of
        Inl e \<Rightarrow> Inl e
      | Inr max_tickets \<Rightarrow>
     (case getEnvAsInt process_env ''TICKET_PRICE_INFANT'' (Fin 0) of
        Inl e \<Rightarrow> Inl e
      | Inr infant \<Rightarrow>
     (case getEnvAsInt process_env ''TICKET_PRICE_CHILD'' (Fin 15) of
        Inl e \<Rightarrow> Inl e
      | Inr child \<Rightarrow>
     (case getEnvAsInt process_env ''TICKET_PRICE_ADULT'' (Fin 25) of
        Inl e \<Rightarrow> Inl e
      | Inr adult \<Rightarrow>
        (let this = \<lparr> maxTickets = max_tickets,
                      ticketPrices = (\<lambda>t. case t of INFANT \<Rightarrow> infant
                                                   | CHILD \<Rightarrow> child
                                                   | ADULT \<Rightarrow> adult),
                      enforceInfantAdultRatio =
                        getEnvAsBool process_env ''ENFORCE_INFANT_ADULT_RATIO'' True,
                      nodeEnv = (case process_env ''NODE_ENV'' of
                                   None \<Rightarrow> ''development''
                                 | Some v \<Rightarrow> if v = [] then ''development'' else v) \<rparr>
         in case validate this of Inl e \<Rightarrow> Inl e | Inr _ \<Rightarrow> Inr this)))))"

text \<open>The constructor of the second version of the service copies three fields.\<close>

definition TicketService_constructor :: "Config \<Rightarrow> TicketService" where
  "TicketService_constructor config =
     \<lparr> TICKET_PRICES = ticketPrices config,
       MAX_TICKETS = maxTickets config,
       ENFORCE_INFANT_ADULT_RATIO = enforceInfantAdultRatio config \<rparr>"


section \<open>The vocabulary of the specification\<close>

text \<open>
  These definitions follow the words of the specification, not the code; the theorems
  below compare the code with them. The specification counts and prices in integers.
\<close>

text \<open>An account identifier is acceptable when it is a positive integer.\<close>

definition positive_integer :: "js_value \<Rightarrow> bool" where
  "positive_integer a = (\<exists>n::int. 0 < n \<and> a = Num (of_int n))"

text \<open>A valid item is a request object whose quantity is greater than zero.\<close>

definition valid_item :: "js_arg \<Rightarrow> bool" where
  "valid_item x = (case x of Instance r \<Rightarrow> 0 < getNoOfTickets r | Other \<Rightarrow> False)"

text \<open>The aggregated count of a category: the sum of the quantities requested for it.\<close>

definition quantity_for :: "ticket_type \<Rightarrow> js_arg \<Rightarrow> int" where
  "quantity_for t x =
     (case x of
        Instance r \<Rightarrow> if getTicketType r = t then getNoOfTickets r else 0
      | Other \<Rightarrow> 0)"

definition aggregate :: "ticket_type \<Rightarrow> js_arg list \<Rightarrow> int" where
  "aggregate t xs = sum_list (map (quantity_for t) xs)"

definition total_quantity :: "js_arg list \<Rightarrow> int" where
  "total_quantity xs = aggregate ADULT xs + aggregate CHILD xs + aggregate INFANT xs"

text \<open>
  The three business rules on the aggregated counts, for a limit \<open>m\<close> and with the ratio
  rule switched by \<open>ratio\<close>.
\<close>

definition rules_pass :: "number \<Rightarrow> bool \<Rightarrow> js_arg list \<Rightarrow> bool" where
  "rules_pass m ratio xs \<longleftrightarrow>
     num_le (Fin (total_quantity xs)) m \<and>
     (if 0 < aggregate CHILD xs \<or> 0 < aggregate INFANT xs then 0 < aggregate ADULT xs
      else True) \<and>
     (if ratio then aggregate INFANT xs \<le> aggregate ADULT xs else True)"

text \<open>Price and seats as the specification computes them.\<close>

definition price :: "(ticket_type \<Rightarrow> int) \<Rightarrow> js_arg list \<Rightarrow> int" where
  "price p xs = (\<Sum>t \<leftarrow> [ADULT, CHILD, INFANT]. aggregate t xs * p t)"

definition seats :: "js_arg list \<Rightarrow> int" where
  "seats xs = aggregate ADULT xs + aggregate CHILD xs"

text \<open>All of validation passes: account, presence, items, business rules.\<close>

definition accepted :: "number \<Rightarrow> bool \<Rightarrow> js_value \<Rightarrow> js_arg list \<Rightarrow> bool" where
  "accepted m ratio a xs \<longleftrightarrow>
     positive_integer a \<and> xs \<noteq> [] \<and> list_all valid_item xs \<and> rules_pass m ratio xs"

text \<open>
  Doubles are exact on the integers below \<open>2 ^ 53\<close>. A count computed in doubles follows
  the exact count \<open>n\<close> when it is the very number below \<open>2 ^ 53\<close> and some number from
  \<open>2 ^ 53\<close> upwards otherwise.
\<close>

definition follows :: "number \<Rightarrow> int \<Rightarrow> bool" where
  "follows x n =
     (if n < 2 ^ 53 then x = Fin n
      else x = PlusInfinity \<or> (\<exists>v. x = Fin v \<and> 2 ^ 53 \<le> v))"

text \<open>
  A price table stays in the exact range for a request set when the total quantity is below
  \<open>2 ^ 53\<close>, every unit price is a finite number that is not negative, and the total
  price is below \<open>2 ^ 53\<close>: then no sum or product of the purchase is rounded.
\<close>

definition price_of :: "number \<Rightarrow> int" where
  "price_of x = (case x of Fin p \<Rightarrow> p | _ \<Rightarrow> 0)"

definition nonneg_price :: "number \<Rightarrow> bool" where
  "nonneg_price x = (case x of Fin p \<Rightarrow> 0 \<le> p | _ \<Rightarrow> False)"

definition exact_range :: "(ticket_type \<Rightarrow> number) \<Rightarrow> js_arg list \<Rightarrow> bool" where
  "exact_range p xs \<longleftrightarrow>
     total_quantity xs < 2 ^ 53 \<and>
     nonneg_price (p ADULT) \<and> nonneg_price (p CHILD) \<and> nonneg_price (p INFANT) \<and>
     price (\<lambda>t. price_of (p t)) xs < 2 ^ 53"

text \<open>
  A number is finite when it is neither an infinity nor \<^verbatim>\<open>NaN\<close>. The integers from zero
  upwards that a double can hold are a mantissa of at most 53 bits times a power of two. A
  number is at least such an integer \<open>d\<close> when it is \<^verbatim>\<open>Infinity\<close> or a finite number from
  \<open>d\<close> upwards; rounding to the nearest double keeps such a bound.
\<close>

definition is_finite :: "number \<Rightarrow> bool" where
  "is_finite x = (case x of Fin _ \<Rightarrow> True | _ \<Rightarrow> False)"

definition dbl :: "int \<Rightarrow> bool" where
  "dbl d = (\<exists>k j. d = k * 2 ^ j \<and> 0 \<le> k \<and> k \<le> 2 ^ 53)"

definition at_least :: "int \<Rightarrow> number \<Rightarrow> bool" where
  "at_least d x = (x = PlusInfinity \<or> (\<exists>v. x = Fin v \<and> d \<le> v))"


section \<open>Rounding\<close>

lemma expo_le: "e \<le> expo m e"
proof (induction m e rule: expo.induct)
  case (1 m e)
  show ?case
  proof (cases "m < 2 ^ (53 + e)")
    case True
    then show ?thesis by (simp add: expo.simps [of m e])
  next
    case False
    with "1" have "Suc e \<le> expo m (Suc e)" by simp
    with False show ?thesis by (simp add: expo.simps [of m e])
  qed
qed

lemma expo_bound: "m < 2 ^ (53 + expo m e)"
proof (induction m e rule: expo.induct)
  case (1 m e)
  show ?case
  proof (cases "m < 2 ^ (53 + e)")
    case True
    then show ?thesis by (simp add: expo.simps [of m e])
  next
    case False
    with "1" have "m < 2 ^ (53 + expo m (Suc e))" by simp
    with False show ?thesis by (simp add: expo.simps [of m e])
  qed
qed

lemma expo_min: "expo m e = e \<or> 2 ^ (52 + expo m e) \<le> m"
proof (induction m e rule: expo.induct)
  case (1 m e)
  show ?case
  proof (cases "m < 2 ^ (53 + e)")
    case True
    then show ?thesis by (simp add: expo.simps [of m e])
  next
    case False
    then have eq: "expo m e = expo m (Suc e)" by (simp add: expo.simps [of m e])
    from "1" False have "expo m (Suc e) = Suc e \<or> 2 ^ (52 + expo m (Suc e)) \<le> m" by simp
    then show ?thesis
    proof
      assume "expo m (Suc e) = Suc e"
      with False eq show ?thesis by simp
    next
      assume "2 ^ (52 + expo m (Suc e)) \<le> m"
      with eq show ?thesis by simp
    qed
  qed
qed

lemma expo_small: "m < 2 ^ 53 \<Longrightarrow> expo m 0 = 0"
  by (simp add: expo.simps [of m 0])

lemma round_half_even_one: "round_half_even 1 m = m"
  by (simp add: round_half_even_def)

lemma round_half_even_ge: "0 < q \<Longrightarrow> (m div q) * q \<le> round_half_even q m"
  by (simp add: round_half_even_def Let_def distrib_right)

lemma number_value_exact: "\<bar>n\<bar> < 2 ^ 53 \<Longrightarrow> number_value n = Fin n"
proof -
  assume a: "\<bar>n\<bar> < 2 ^ 53"
  then have "expo \<bar>n\<bar> 0 = 0" by (rule expo_small)
  with a show ?thesis
    by (auto simp: number_value_def round_half_even_one Let_def)
qed

lemma number_value_large:
  assumes "2 ^ 53 \<le> n"
  shows "number_value n = PlusInfinity \<or> (\<exists>v. number_value n = Fin v \<and> 2 ^ 53 \<le> v)"
proof -
  let ?e = "expo n 0"
  let ?v = "round_half_even (2 ^ ?e) n"
  from assms have pos: "0 \<le> n" by simp
  then have abs: "\<bar>n\<bar> = n" by simp
  have "n < 2 ^ (53 + ?e)" by (rule expo_bound)
  with assms have "?e \<noteq> 0" by (cases "?e = 0") simp_all
  with expo_min [of n 0] have low: "2 ^ (52 + ?e) \<le> n" by simp
  have "(2 :: int) ^ (52 + ?e) div 2 ^ ?e \<le> n div 2 ^ ?e"
    using low by (rule zdiv_mono1) simp
  then have k: "(2 :: int) ^ 52 \<le> n div 2 ^ ?e" by (simp add: power_add)
  have "(2 :: int) ^ 52 * 2 ^ ?e \<le> (n div 2 ^ ?e) * 2 ^ ?e"
    using k by (rule mult_right_mono) simp
  also have "\<dots> \<le> ?v" by (rule round_half_even_ge) simp
  finally have "(2 :: int) ^ 52 * 2 ^ ?e \<le> ?v" .
  moreover from \<open>?e \<noteq> 0\<close> have "(2 :: int) ^ 1 \<le> 2 ^ ?e"
    by (intro power_increasing) simp_all
  then have "(2 :: int) ^ 52 * 2 ^ 1 \<le> 2 ^ 52 * 2 ^ ?e"
    by (intro mult_left_mono) simp_all
  ultimately have v: "2 ^ 53 \<le> ?v" by simp
  with pos abs show ?thesis
    by (simp add: number_value_def Let_def)
qed

section \<open>Numbers that follow exact counts\<close>

lemma num_mul_Fin [simp]: "num_mul (Fin a) (Fin b) = number_value (a * b)"
  by (simp add: num_mul_def)

lemma follows_Fin: "follows (Fin n) n"
  by (simp add: follows_def)

lemma follows_exact: "n < 2 ^ 53 \<Longrightarrow> follows x n \<Longrightarrow> x = Fin n"
  by (simp add: follows_def)

lemma follows_cases:
  assumes "follows x n"
  obtains (exact) "n < 2 ^ 53" "x = Fin n"
    | (inf) "2 ^ 53 \<le> n" "x = PlusInfinity"
    | (large) v where "2 ^ 53 \<le> n" "x = Fin v" "2 ^ 53 \<le> v"
  using assms unfolding follows_def by (cases "n < 2 ^ 53") auto

lemma follows_add:
  assumes n: "0 \<le> n" and k: "0 \<le> k" and x: "follows x n" and y: "follows y k"
  shows "follows (num_add x y) (n + k)"
proof (cases "n + k < 2 ^ 53")
  case True
  with n k have "n < 2 ^ 53" "k < 2 ^ 53" by simp_all
  with x y have "x = Fin n" "y = Fin k" by (simp_all add: follows_exact)
  moreover from True n k have "\<bar>n + k\<bar> < 2 ^ 53" by simp
  ultimately show ?thesis using True
    by (simp add: number_value_exact follows_def)
next
  case False
  then have big: "2 ^ 53 \<le> n + k" by simp
  have fin: "follows (num_add (Fin v) (Fin w)) (n + k)" if "2 ^ 53 \<le> v + w" for v w
    using number_value_large [OF that] False by (auto simp: follows_def)
  from x show ?thesis
  proof (cases rule: follows_cases)
    case exact
    note xe = this
    from y show ?thesis
    proof (cases rule: follows_cases)
      case exact
      with xe big fin [of n k] show ?thesis by simp
    next
      case inf
      with xe False show ?thesis by (simp add: follows_def)
    next
      case (large w)
      with xe n fin [of n w] show ?thesis by simp
    qed
  next
    case inf
    note xi = this
    from y show ?thesis
    proof (cases rule: follows_cases)
      case exact
      with xi False show ?thesis by (simp add: follows_def)
    next
      case inf
      with xi False show ?thesis by (simp add: follows_def)
    next
      case (large w)
      with xi False show ?thesis by (simp add: follows_def)
    qed
  next
    case (large v)
    note xl = this
    from y show ?thesis
    proof (cases rule: follows_cases)
      case exact
      with xl k fin [of v k] show ?thesis by simp
    next
      case inf
      with xl False show ?thesis by (simp add: follows_def)
    next
      case (large w)
      with xl fin [of v w] show ?thesis by simp
    qed
  qed
qed

lemma follows_gt_zero: "0 \<le> n \<Longrightarrow> follows x n \<Longrightarrow> num_gt x (Fin 0) \<longleftrightarrow> 0 < n"
  by (erule follows_cases) (auto simp: num_gt_def)

lemma follows_eq_zero: "0 \<le> n \<Longrightarrow> follows x n \<Longrightarrow> num_eq x (Fin 0) \<longleftrightarrow> n = 0"
  by (erule follows_cases) (auto simp: num_eq_def)

lemma follows_gt_small:
  "m < 2 ^ 53 \<Longrightarrow> follows x n \<Longrightarrow> num_gt x (Fin m) \<longleftrightarrow> m < n"
  by (erule follows_cases) (auto simp: num_gt_def)

lemma follows_ge_one: "1 \<le> n \<Longrightarrow> follows x n \<Longrightarrow> num_le (Fin 1) x"
  by (erule follows_cases) (auto simp: num_le_def)

section \<open>Counting\<close>

lemma aggregate_Nil [simp]: "aggregate t [] = 0"
  by (simp add: aggregate_def)

lemma aggregate_Cons [simp]: "aggregate t (x # xs) = quantity_for t x + aggregate t xs"
  by (simp add: aggregate_def)

lemma aggregate_nonneg: "list_all valid_item xs \<Longrightarrow> 0 \<le> aggregate t xs"
  by (induction xs) (auto simp: valid_item_def quantity_for_def split: js_arg.splits)

lemma total_quantity_pos:
  assumes v: "list_all valid_item xs" and ne: "xs \<noteq> []"
  shows "0 < total_quantity xs"
proof (cases xs)
  case Nil
  with ne show ?thesis by simp
next
  case (Cons x ys)
  with v obtain r where x: "x = Instance r" and pos: "0 < getNoOfTickets r"
    by (cases x) (auto simp: valid_item_def)
  from v Cons have "list_all valid_item ys" by simp
  then have "0 \<le> aggregate INFANT ys" "0 \<le> aggregate CHILD ys" "0 \<le> aggregate ADULT ys"
    by (simp_all add: aggregate_nonneg)
  with Cons x pos show ?thesis
    by (cases "getTicketType r") (simp_all add: quantity_for_def total_quantity_def)
qed

lemma count_loop_follows:
  assumes "list_all valid_item xs" and "\<And>t. follows (c t) (n t)" and "\<And>t. 0 \<le> n t"
  shows "\<exists>c'. countTicketsByType_loop c xs = Inr c'
              \<and> (\<forall>t. follows (c' t) (n t + aggregate t xs))"
  using assms
proof (induction xs arbitrary: c n)
  case Nil
  then show ?case by simp
next
  case (Cons x xs)
  from Cons.prems(1) obtain r where x: "x = Instance r" and pos: "0 < getNoOfTickets r"
    by (cases x) (auto simp: valid_item_def)
  from Cons.prems(1) have v: "list_all valid_item xs" by simp
  let ?ty = "getTicketType r" and ?k = "getNoOfTickets r"
  let ?c = "c(?ty := num_add (c ?ty) (Fin ?k))"
  let ?n = "n(?ty := n ?ty + ?k)"
  have f: "follows (?c t) (?n t)" for t
    using Cons.prems(2) [of t] Cons.prems(3) [of ?ty] pos
          follows_add [OF Cons.prems(3) [of ?ty] _ Cons.prems(2) [of ?ty] follows_Fin [of ?k]]
    by simp
  have nn: "0 \<le> ?n t" for t
    using Cons.prems(3) [of t] pos by auto
  from Cons.IH [where c = ?c and n = ?n, OF v f nn] obtain c' where
    c': "countTicketsByType_loop ?c xs = Inr c'"
    and fc: "\<forall>t. follows (c' t) (?n t + aggregate t xs)" by blast
  have "?n t + aggregate t xs = n t + aggregate t (x # xs)" for t
    using x by (simp add: quantity_for_def)
  with fc have "\<forall>t. follows (c' t) (n t + aggregate t (x # xs))" by (simp add: add.assoc)
  with c' x pos show ?case by (simp add: Let_def)
qed

lemma count_loop_Inr:
  "countTicketsByType_loop c xs = Inr c' \<Longrightarrow> list_all valid_item xs"
proof (induction xs arbitrary: c)
  case Nil
  then show ?case by simp
next
  case (Cons x xs)
  show ?case
  proof (cases x)
    case Other
    with Cons.prems show ?thesis by simp
  next
    case (Instance r)
    with Cons.prems have pos: "0 < getNoOfTickets r"
      and rec: "countTicketsByType_loop
                  (c(getTicketType r := num_add (c (getTicketType r)) (Fin (getNoOfTickets r))))
                  xs = Inr c'"
      by (simp_all add: Let_def split: if_splits)
    from Cons.IH [OF rec] pos Instance show ?thesis
      by (simp add: valid_item_def)
  qed
qed

lemma countTicketsByType_valid:
  assumes "list_all valid_item xs"
  shows "\<exists>c. countTicketsByType xs = Inr c \<and> (\<forall>t. follows (c t) (aggregate t xs))"
  using count_loop_follows [OF assms, of "\<lambda>_. Fin 0" "\<lambda>_. 0"]
  by (simp add: countTicketsByType_def follows_Fin)

lemma countTicketsByType_invalid:
  "\<not> list_all valid_item xs \<Longrightarrow> \<exists>e. countTicketsByType xs = Inl e"
  unfolding countTicketsByType_def
  using count_loop_Inr [of "\<lambda>_. Fin 0" xs]
  by (cases "countTicketsByType_loop (\<lambda>_. Fin 0) xs") auto

section \<open>The account check\<close>

lemma positive_integer_of_int [simp]: "positive_integer (Num (of_int n)) = (0 < n)"
  by (auto simp: positive_integer_def)

lemma positive_integer_numeral [simp]: "positive_integer (Num (numeral k))"
  using positive_integer_of_int [of "numeral k"] by simp

lemma positive_integer_one [simp]: "positive_integer (Num 1)"
  using positive_integer_of_int [of 1] by simp

lemma positive_integer_zero [simp]: "\<not> positive_integer (Num 0)"
  using positive_integer_of_int [of 0] by simp

lemma validateAccountId_iff: "validateAccountId a = Inr () \<longleftrightarrow> positive_integer a"
proof (cases a)
  case (Num r)
  show ?thesis
  proof
    assume "validateAccountId a = Inr ()"
    with Num have int: "of_int \<lfloor>r\<rfloor> = r" and pos: "0 < r"
      by (auto simp: validateAccountId_def split: if_splits)
    from int pos have "0 < \<lfloor>r\<rfloor>" by (metis of_int_0_less_iff)
    with int Num show "positive_integer a"
      unfolding positive_integer_def by metis
  next
    assume "positive_integer a"
    with Num show "validateAccountId a = Inr ()"
      by (auto simp: positive_integer_def validateAccountId_def)
  qed
qed (simp_all add: validateAccountId_def positive_integer_def)

lemma validateAccountId_bad:
  "\<not> positive_integer a \<Longrightarrow> validateAccountId a = Inl InvalidAccount"
  using validateAccountId_iff [of a] by (simp add: validateAccountId_def split: if_splits)

section \<open>The business rules on counts that follow the aggregated counts\<close>

lemma total_follows:
  assumes v: "list_all valid_item xs" and f: "\<And>t. follows (c t) (aggregate t xs)"
  shows "follows (num_add (num_add (c INFANT) (c CHILD)) (c ADULT)) (total_quantity xs)"
proof -
  note nn = aggregate_nonneg [OF v]
  have a: "follows (num_add (c INFANT) (c CHILD)) (aggregate INFANT xs + aggregate CHILD xs)"
    by (rule follows_add [OF nn nn f f])
  have b: "0 \<le> aggregate INFANT xs + aggregate CHILD xs"
    using nn [of INFANT] nn [of CHILD] by simp
  have "follows (num_add (num_add (c INFANT) (c CHILD)) (c ADULT))
          (aggregate INFANT xs + aggregate CHILD xs + aggregate ADULT xs)"
    by (rule follows_add [OF b nn a f])
  then show ?thesis by (simp add: total_quantity_def add.commute add.left_commute)
qed

lemma seats_follows:
  assumes v: "list_all valid_item xs" and f: "\<And>t. follows (c t) (aggregate t xs)"
  shows "follows (calculateTotalSeats c) (seats xs)"
proof -
  note nn = aggregate_nonneg [OF v]
  have "follows (num_add (c CHILD) (c ADULT)) (aggregate CHILD xs + aggregate ADULT xs)"
    by (rule follows_add [OF nn nn f f])
  then show ?thesis by (simp add: calculateTotalSeats_def seats_def add.commute)
qed

lemma aggregate_le_total:
  assumes v: "list_all valid_item xs"
  shows "aggregate t xs \<le> total_quantity xs"
  using aggregate_nonneg [OF v, of INFANT] aggregate_nonneg [OF v, of CHILD]
        aggregate_nonneg [OF v, of ADULT]
  by (cases t) (simp_all add: total_quantity_def)

lemma counts_exact:
  assumes v: "list_all valid_item xs" and f: "\<And>t. follows (c t) (aggregate t xs)"
    and r: "total_quantity xs < 2 ^ 53"
  shows "c = (\<lambda>t. Fin (aggregate t xs))"
proof
  fix t
  from aggregate_le_total [OF v, of t] r have "aggregate t xs < 2 ^ 53" by simp
  then show "c t = Fin (aggregate t xs)" using f [of t] by (rule follows_exact)
qed

lemma validateBusinessRules1_follows:
  assumes v: "list_all valid_item xs" and f: "\<And>t. follows (c t) (aggregate t xs)"
  shows "validateBusinessRules1 c =
           (if 25 < total_quantity xs then Inl (LimitExceeded (Fin 25))
            else if aggregate ADULT xs = 0 \<and> (0 < aggregate CHILD xs \<or> 0 < aggregate INFANT xs)
              then Inl MissingAdult
            else if aggregate ADULT xs < aggregate INFANT xs then Inl InfantRatioExceeded
            else Inr ())"
proof (cases "25 < total_quantity xs")
  case True
  with follows_gt_small [OF _ total_follows [OF v f], of 25] show ?thesis
    by (simp add: validateBusinessRules1_def MAX_TICKETS1_def Let_def)
next
  case False
  then have "total_quantity xs < 2 ^ 53" by simp
  from counts_exact [OF v f this] have c: "c = (\<lambda>t. Fin (aggregate t xs))" .
  from False follows_gt_small [OF _ total_follows [OF v f], of 25]
  have "\<not> num_gt (num_add (num_add (c INFANT) (c CHILD)) (c ADULT)) (Fin 25)" by simp
  with False show ?thesis
    by (auto simp: validateBusinessRules1_def MAX_TICKETS1_def Let_def c num_gt_def num_eq_def)
qed

lemma validateBusinessRules2_exact:
  assumes v: "list_all valid_item xs" and r: "total_quantity xs < 2 ^ 53"
  shows "validateBusinessRules2 this (\<lambda>t. Fin (aggregate t xs)) =
           (if num_lt (MAX_TICKETS this) (Fin (total_quantity xs))
              then Inl (LimitExceeded (MAX_TICKETS this))
            else if aggregate ADULT xs = 0 \<and> (0 < aggregate CHILD xs \<or> 0 < aggregate INFANT xs)
              then Inl MissingAdult
            else if ENFORCE_INFANT_ADULT_RATIO this \<and> aggregate ADULT xs < aggregate INFANT xs
              then Inl InfantRatioExceeded
            else Inr ())"
proof -
  have "follows (num_add (num_add (Fin (aggregate INFANT xs)) (Fin (aggregate CHILD xs)))
                   (Fin (aggregate ADULT xs))) (total_quantity xs)"
    using total_follows [OF v, of "\<lambda>t. Fin (aggregate t xs)"] by (simp add: follows_Fin)
  with r have "num_add (num_add (Fin (aggregate INFANT xs)) (Fin (aggregate CHILD xs)))
                   (Fin (aggregate ADULT xs)) = Fin (total_quantity xs)"
    by (simp add: follows_exact)
  then show ?thesis
    by (auto simp: validateBusinessRules2_def Let_def num_gt_def num_eq_def)
qed

lemma validateBusinessRules2_limit:
  assumes v: "list_all valid_item xs" and f: "\<And>t. follows (c t) (aggregate t xs)"
    and m: "MAX_TICKETS this = Fin m" "m < 2 ^ 53" "m < total_quantity xs"
  shows "validateBusinessRules2 this c = Inl (LimitExceeded (Fin m))"
  using follows_gt_small [OF m(2) total_follows [OF v f]] m(1,3)
  by (simp add: validateBusinessRules2_def Let_def)

lemma validateBusinessRules2_adult:
  assumes v: "list_all valid_item xs" and f: "\<And>t. follows (c t) (aggregate t xs)"
    and ne: "xs \<noteq> []" and ok: "validateBusinessRules2 this c = Inr ()"
  shows "1 \<le> aggregate ADULT xs"
proof (rule ccontr)
  assume "\<not> 1 \<le> aggregate ADULT xs"
  with aggregate_nonneg [OF v, of ADULT] have z: "aggregate ADULT xs = 0" by simp
  note nn = aggregate_nonneg [OF v]
  from total_quantity_pos [OF v ne] z
  have "0 < aggregate CHILD xs \<or> 0 < aggregate INFANT xs"
    by (auto simp: total_quantity_def)
  then have "num_gt (c CHILD) (Fin 0) \<or> num_gt (c INFANT) (Fin 0)"
    using follows_gt_zero [OF nn f, of CHILD] follows_gt_zero [OF nn f, of INFANT] by simp
  moreover from z have "num_eq (c ADULT) (Fin 0)"
    using follows_eq_zero [OF nn f, of ADULT] by simp
  ultimately show False using ok
    by (simp add: validateBusinessRules2_def Let_def split: if_splits)
qed

section \<open>Exact amounts\<close>

lemma sum3_exact:
  assumes "0 \<le> x" and "0 \<le> y" and "0 \<le> z" and "x + y + z < 2 ^ 53"
  shows "num_add (num_add (number_value x) (number_value y)) (number_value z)
           = Fin (x + y + z)"
proof -
  from assms have "\<bar>x\<bar> < 2 ^ 53" "\<bar>y\<bar> < 2 ^ 53" "\<bar>z\<bar> < 2 ^ 53"
    "\<bar>x + y\<bar> < 2 ^ 53" "\<bar>x + y + z\<bar> < 2 ^ 53"
    by simp_all
  then have "number_value x = Fin x" "number_value y = Fin y" "number_value z = Fin z"
    "number_value (x + y) = Fin (x + y)" "number_value (x + y + z) = Fin (x + y + z)"
    by (simp_all only: number_value_exact)
  then show ?thesis by simp
qed

lemma nonneg_priceD: "nonneg_price x \<Longrightarrow> x = Fin (price_of x) \<and> 0 \<le> price_of x"
  by (cases x) (simp_all add: nonneg_price_def price_of_def)

lemma calculateTotalAmount2_exact:
  assumes v: "list_all valid_item xs"
    and e: "exact_range (TICKET_PRICES this) xs"
  shows "calculateTotalAmount2 this (\<lambda>t. Fin (aggregate t xs)) =
           Fin (price (\<lambda>t. price_of (TICKET_PRICES this t)) xs)"
proof -
  define qa qc qi where "qa = price_of (TICKET_PRICES this ADULT)"
    and "qc = price_of (TICKET_PRICES this CHILD)"
    and "qi = price_of (TICKET_PRICES this INFANT)"
  from e have n: "nonneg_price (TICKET_PRICES this ADULT)" "nonneg_price (TICKET_PRICES this CHILD)"
    "nonneg_price (TICKET_PRICES this INFANT)"
    and r: "price (\<lambda>t. price_of (TICKET_PRICES this t)) xs < 2 ^ 53"
    by (simp_all add: exact_range_def)
  from n [THEN nonneg_priceD]
  have pr: "TICKET_PRICES this ADULT = Fin qa" "TICKET_PRICES this CHILD = Fin qc"
    "TICKET_PRICES this INFANT = Fin qi"
    and q: "0 \<le> qa" "0 \<le> qc" "0 \<le> qi"
    by (simp_all add: qa_def qc_def qi_def)
  note ag = aggregate_nonneg [OF v]
  have x: "0 \<le> aggregate INFANT xs * qi" "0 \<le> aggregate CHILD xs * qc"
    "0 \<le> aggregate ADULT xs * qa"
    using ag q by simp_all
  from r have s: "aggregate INFANT xs * qi + aggregate CHILD xs * qc + aggregate ADULT xs * qa
                    < 2 ^ 53"
    by (simp add: price_def qa_def qc_def qi_def)
  have "calculateTotalAmount2 this (\<lambda>t. Fin (aggregate t xs)) =
          Fin (aggregate INFANT xs * qi + aggregate CHILD xs * qc + aggregate ADULT xs * qa)"
    unfolding calculateTotalAmount2_def pr num_mul_Fin by (rule sum3_exact [OF x s])
  also have "aggregate INFANT xs * qi + aggregate CHILD xs * qc + aggregate ADULT xs * qa
               = price (\<lambda>t. price_of (TICKET_PRICES this t)) xs"
    by (simp add: price_def qa_def qc_def qi_def)
  finally show ?thesis .
qed

lemma calculateTotalAmount1_exact:
  assumes v: "list_all valid_item xs" and r: "total_quantity xs \<le> 25"
  shows "calculateTotalAmount1 (\<lambda>t. Fin (aggregate t xs)) =
           Fin (aggregate ADULT xs * 25 + aggregate CHILD xs * 15 + aggregate INFANT xs * 0)"
proof -
  note nn = aggregate_nonneg [OF v]
  note le = aggregate_le_total [OF v]
  have x: "0 \<le> aggregate INFANT xs * 0" "0 \<le> aggregate CHILD xs * 15"
    "0 \<le> aggregate ADULT xs * 25"
    using nn by simp_all
  have s: "aggregate INFANT xs * 0 + aggregate CHILD xs * 15 + aggregate ADULT xs * 25 < 2 ^ 53"
    using nn [of CHILD] le [of CHILD] nn [of ADULT] le [of ADULT] r by simp
  have "calculateTotalAmount1 (\<lambda>t. Fin (aggregate t xs)) =
          Fin (aggregate INFANT xs * 0 + aggregate CHILD xs * 15 + aggregate ADULT xs * 25)"
    unfolding calculateTotalAmount1_def TICKET_PRICES1.simps num_mul_Fin
    by (rule sum3_exact [OF x s])
  then show ?thesis by simp
qed

lemma calculateTotalSeats_exact:
  assumes v: "list_all valid_item xs" and r: "total_quantity xs < 2 ^ 53"
  shows "calculateTotalSeats (\<lambda>t. Fin (aggregate t xs)) = Fin (seats xs)"
proof -
  have "follows (calculateTotalSeats (\<lambda>t. Fin (aggregate t xs))) (seats xs)"
    by (rule seats_follows [OF v]) (rule follows_Fin)
  moreover have "seats xs < 2 ^ 53"
    using r aggregate_nonneg [OF v, of INFANT] by (simp add: seats_def total_quantity_def)
  ultimately show ?thesis by (simp add: follows_exact)
qed

section \<open>The purchase on well-formed input\<close>

lemma purchaseTickets2_follows:
  assumes "positive_integer a" and "xs \<noteq> []" and "list_all valid_item xs"
  shows "\<exists>c. (\<forall>t. follows (c t) (aggregate t xs)) \<and>
           purchaseTickets2 this a xs s =
             (case validateBusinessRules2 this c of
                Inl e \<Rightarrow> (Inl e, s)
              | Inr _ \<Rightarrow> (Inr (), s @ [makePayment a (calculateTotalAmount2 this c),
                                        reserveSeat a (calculateTotalSeats c)]))"
proof -
  from assms(1) have acc: "validateAccountId a = Inr ()"
    by (simp add: validateAccountId_iff)
  from assms(2) have ex: "validateTicketRequestsExist xs = Inr ()"
    by (simp add: validateTicketRequestsExist_def)
  from countTicketsByType_valid [OF assms(3)] obtain c
    where c: "countTicketsByType xs = Inr c" and f: "\<forall>t. follows (c t) (aggregate t xs)"
    by blast
  have "purchaseTickets2 this a xs s =
             (case validateBusinessRules2 this c of
                Inl e \<Rightarrow> (Inl e, s)
              | Inr _ \<Rightarrow> (Inr (), s @ [makePayment a (calculateTotalAmount2 this c),
                                        reserveSeat a (calculateTotalSeats c)]))"
    unfolding purchaseTickets2_def
    by (simp add: acc ex c Let_def split: sum.splits)
  with f show ?thesis by blast
qed

lemma purchaseTickets2_exact:
  assumes a: "positive_integer a" and ne: "xs \<noteq> []" and v: "list_all valid_item xs"
    and r: "total_quantity xs < 2 ^ 53"
  shows "purchaseTickets2 this a xs s =
           (if num_lt (MAX_TICKETS this) (Fin (total_quantity xs))
              then (Inl (LimitExceeded (MAX_TICKETS this)), s)
            else if aggregate ADULT xs = 0 \<and> (0 < aggregate CHILD xs \<or> 0 < aggregate INFANT xs)
              then (Inl MissingAdult, s)
            else if ENFORCE_INFANT_ADULT_RATIO this \<and> aggregate ADULT xs < aggregate INFANT xs
              then (Inl InfantRatioExceeded, s)
            else (Inr (), s @ [makePayment a
                                 (calculateTotalAmount2 this (\<lambda>t. Fin (aggregate t xs))),
                               reserveSeat a (Fin (seats xs))]))"
proof -
  from purchaseTickets2_follows [OF a ne v, of this s] obtain c
    where f: "\<And>t. follows (c t) (aggregate t xs)"
      and p: "purchaseTickets2 this a xs s =
             (case validateBusinessRules2 this c of
                Inl e \<Rightarrow> (Inl e, s)
              | Inr _ \<Rightarrow> (Inr (), s @ [makePayment a (calculateTotalAmount2 this c),
                                        reserveSeat a (calculateTotalSeats c)]))"
    by blast
  from counts_exact [OF v f r] have c: "c = (\<lambda>t. Fin (aggregate t xs))" .
  show ?thesis
    unfolding p c validateBusinessRules2_exact [OF v r] calculateTotalSeats_exact [OF v r]
    by auto
qed

lemma purchaseTickets1_valid_items:
  assumes a: "positive_integer a" and ne: "xs \<noteq> []" and v: "list_all valid_item xs"
  shows "purchaseTickets1 a xs s =
           (if 25 < total_quantity xs then (Inl (LimitExceeded (Fin 25)), s)
            else if aggregate ADULT xs = 0 \<and> (0 < aggregate CHILD xs \<or> 0 < aggregate INFANT xs)
              then (Inl MissingAdult, s)
            else if aggregate ADULT xs < aggregate INFANT xs
              then (Inl InfantRatioExceeded, s)
            else (Inr (), s @ [makePayment a
                                 (Fin (aggregate ADULT xs * 25 + aggregate CHILD xs * 15 +
                                       aggregate INFANT xs * 0)),
                               reserveSeat a (Fin (seats xs))]))"
proof -
  from a have acc: "validateAccountId a = Inr ()"
    by (simp add: validateAccountId_iff)
  from ne have ex: "validateTicketRequestsExist xs = Inr ()"
    by (simp add: validateTicketRequestsExist_def)
  from countTicketsByType_valid [OF v] obtain c
    where c: "countTicketsByType xs = Inr c" and f: "\<And>t. follows (c t) (aggregate t xs)"
    by blast
  have p: "purchaseTickets1 a xs s =
             (case validateBusinessRules1 c of
                Inl e \<Rightarrow> (Inl e, s)
              | Inr _ \<Rightarrow> (Inr (), s @ [makePayment a (calculateTotalAmount1 c),
                                        reserveSeat a (calculateTotalSeats c)]))"
    unfolding purchaseTickets1_def
    by (simp add: acc ex c Let_def split: sum.splits)
  show ?thesis
  proof (cases "25 < total_quantity xs")
    case True
    then show ?thesis
      unfolding p validateBusinessRules1_follows [OF v f] by simp
  next
    case False
    then have r: "total_quantity xs < 2 ^ 53" and r': "total_quantity xs \<le> 25" by simp_all
    from counts_exact [OF v f r] have ce: "c = (\<lambda>t. Fin (aggregate t xs))" .
    have vb: "validateBusinessRules1 (\<lambda>t. Fin (aggregate t xs)) =
           (if 25 < total_quantity xs then Inl (LimitExceeded (Fin 25))
            else if aggregate ADULT xs = 0 \<and> (0 < aggregate CHILD xs \<or> 0 < aggregate INFANT xs)
              then Inl MissingAdult
            else if aggregate ADULT xs < aggregate INFANT xs then Inl InfantRatioExceeded
            else Inr ())"
      by (rule validateBusinessRules1_follows [OF v]) (rule follows_Fin)
    show ?thesis
      unfolding p ce vb calculateTotalAmount1_exact [OF v r'] calculateTotalSeats_exact [OF v r]
      by auto
  qed
qed

lemma purchaseTickets2_invalid_input:
  assumes "\<not> (positive_integer a \<and> xs \<noteq> [] \<and> list_all valid_item xs)"
  shows "\<exists>e. purchaseTickets2 this a xs s = (Inl e, s)"
proof (cases "positive_integer a")
  case False
  then show ?thesis
    by (simp add: purchaseTickets2_def validateAccountId_bad)
next
  case True
  then have acc: "validateAccountId a = Inr ()" by (simp add: validateAccountId_iff)
  show ?thesis
  proof (cases "xs = []")
    case True
    then show ?thesis
      by (simp add: purchaseTickets2_def acc validateTicketRequestsExist_def)
  next
    case False
    with True assms have "\<not> list_all valid_item xs" by simp
    from countTicketsByType_invalid [OF this] obtain e where "countTicketsByType xs = Inl e" ..
    with False show ?thesis
      by (simp add: purchaseTickets2_def acc validateTicketRequestsExist_def)
  qed
qed

lemma purchaseTickets1_invalid_input:
  assumes "\<not> (positive_integer a \<and> xs \<noteq> [] \<and> list_all valid_item xs)"
  shows "\<exists>e. purchaseTickets1 a xs s = (Inl e, s)"
proof (cases "positive_integer a")
  case False
  then show ?thesis
    by (simp add: purchaseTickets1_def validateAccountId_bad)
next
  case True
  then have acc: "validateAccountId a = Inr ()" by (simp add: validateAccountId_iff)
  show ?thesis
  proof (cases "xs = []")
    case True
    then show ?thesis
      by (simp add: purchaseTickets1_def acc validateTicketRequestsExist_def)
  next
    case False
    with True assms have "\<not> list_all valid_item xs" by simp
    from countTicketsByType_invalid [OF this] obtain e where "countTicketsByType xs = Inl e" ..
    with False show ?thesis
      by (simp add: purchaseTickets1_def acc validateTicketRequestsExist_def)
  qed
qed


lemma purchaseTickets1_shape:
  "(\<exists>e. purchaseTickets1 a xs s = (Inl e, s))
   \<or> (\<exists>amount n. purchaseTickets1 a xs s =
                    (Inr (), s @ [makePayment a amount, reserveSeat a n]))"
  by (simp add: purchaseTickets1_def Let_def split: sum.splits)

lemma rules_pass_25:
  "rules_pass (Fin 25) True xs \<longleftrightarrow>
     total_quantity xs \<le> 25
     \<and> (0 < aggregate CHILD xs \<or> 0 < aggregate INFANT xs \<longrightarrow> 0 < aggregate ADULT xs)
     \<and> aggregate INFANT xs \<le> aggregate ADULT xs"
  by (auto simp: rules_pass_def num_le_def)

lemma purchaseTickets1_accepted:
  assumes "accepted (Fin 25) True a xs"
  shows "purchaseTickets1 a xs s =
           (Inr (), s @ [makePayment a
                           (Fin (aggregate ADULT xs * 25 + aggregate CHILD xs * 15 +
                                 aggregate INFANT xs * 0)),
                         reserveSeat a (Fin (seats xs))])"
proof -
  from assms have a: "positive_integer a" and ne: "xs \<noteq> []" and v: "list_all valid_item xs"
    and r: "rules_pass (Fin 25) True xs"
    by (simp_all add: accepted_def)
  from r aggregate_nonneg [OF v, of ADULT] show ?thesis
    unfolding purchaseTickets1_valid_items [OF a ne v] rules_pass_25 by auto
qed

lemma purchaseTickets1_rejected:
  assumes "\<not> accepted (Fin 25) True a xs"
  shows "\<exists>e. purchaseTickets1 a xs s = (Inl e, s)"
proof (cases "positive_integer a \<and> xs \<noteq> [] \<and> list_all valid_item xs")
  case False
  then show ?thesis by (rule purchaseTickets1_invalid_input)
next
  case True
  then have a: "positive_integer a" and ne: "xs \<noteq> []" and v: "list_all valid_item xs"
    by simp_all
  from assms True have "\<not> rules_pass (Fin 25) True xs"
    by (simp add: accepted_def)
  with aggregate_nonneg [OF v, of ADULT] show ?thesis
    unfolding purchaseTickets1_valid_items [OF a ne v] rules_pass_25 by auto
qed

lemma purchaseTickets1_success:
  assumes "purchaseTickets1 a xs s = (Inr u, s')"
  shows "accepted (Fin 25) True a xs \<and>
         s' = s @ [makePayment a
                     (Fin (aggregate ADULT xs * 25 + aggregate CHILD xs * 15 +
                           aggregate INFANT xs * 0)),
                   reserveSeat a (Fin (seats xs))]"
proof (cases "accepted (Fin 25) True a xs")
  case True
  from purchaseTickets1_accepted [OF True, of s] assms True show ?thesis by simp
next
  case False
  from purchaseTickets1_rejected [OF False, of s] assms show ?thesis by auto
qed

lemma accepted_has_adult:
  assumes "accepted m ratio a xs"
  shows "1 \<le> aggregate ADULT xs" and "0 \<le> aggregate CHILD xs" and "0 \<le> aggregate INFANT xs"
proof -
  from assms have ne: "xs \<noteq> []" and v: "list_all valid_item xs" and r: "rules_pass m ratio xs"
    by (simp_all add: accepted_def)
  from v show c: "0 \<le> aggregate CHILD xs" and i: "0 \<le> aggregate INFANT xs"
    by (simp_all add: aggregate_nonneg)
  from v have a: "0 \<le> aggregate ADULT xs" by (simp add: aggregate_nonneg)
  from total_quantity_pos [OF v ne] have "0 < aggregate ADULT xs + aggregate CHILD xs + aggregate INFANT xs"
    by (simp add: total_quantity_def)
  with r a c i show "1 \<le> aggregate ADULT xs"
    by (auto simp: rules_pass_def split: if_splits)
qed

section \<open>The configuration and the two versions\<close>

lemma getEnvAsInt_number:
  "getEnvAsInt process_env key d = Inr x \<Longrightarrow> d \<noteq> NotANumber \<Longrightarrow> x \<noteq> NotANumber"
  by (auto simp: getEnvAsInt_def isNaN_def Let_def split: option.splits if_splits)

lemma getEnvAsInt_default:
  "process_env key = None \<or> process_env key = Some [] \<Longrightarrow>
   getEnvAsInt process_env key d = Inr d"
  by (auto simp: getEnvAsInt_def)

lemma getEnvAsBool_default:
  "process_env key = None \<or> process_env key = Some [] \<Longrightarrow>
   getEnvAsBool process_env key d = d"
  by (auto simp: getEnvAsBool_def)

lemma Config_constructor_Inr:
  assumes "Config_constructor process_env = Inr config"
  shows "validate config = Inr ()"
    and "maxTickets config \<noteq> NotANumber"
    and "ticketPrices config t \<noteq> NotANumber"
proof -
  from assms obtain m i c d where
    m: "getEnvAsInt process_env ''MAX_TICKETS'' (Fin 25) = Inr m"
    and i: "getEnvAsInt process_env ''TICKET_PRICE_INFANT'' (Fin 0) = Inr i"
    and c: "getEnvAsInt process_env ''TICKET_PRICE_CHILD'' (Fin 15) = Inr c"
    and d: "getEnvAsInt process_env ''TICKET_PRICE_ADULT'' (Fin 25) = Inr d"
    and cfg: "maxTickets config = m" "ticketPrices config INFANT = i"
      "ticketPrices config CHILD = c" "ticketPrices config ADULT = d"
    and val: "validate config = Inr ()"
    unfolding Config_constructor_def
    by (auto simp: Let_def split: sum.splits unit.splits)
  from val show "validate config = Inr ()" .
  from getEnvAsInt_number [OF m] cfg show "maxTickets config \<noteq> NotANumber" by simp
  from getEnvAsInt_number [OF i] getEnvAsInt_number [OF c] getEnvAsInt_number [OF d] cfg
  show "ticketPrices config t \<noteq> NotANumber" by (cases t) simp_all
qed

lemma validate_Inr_iff:
  "validate config = Inr () \<longleftrightarrow>
     \<not> num_le (maxTickets config) (Fin 0) \<and> \<not> num_lt (ticketPrices config INFANT) (Fin 0)
     \<and> \<not> num_lt (ticketPrices config CHILD) (Fin 0)
     \<and> \<not> num_lt (ticketPrices config ADULT) (Fin 0)
     \<and> \<not> num_le (ticketPrices config ADULT) (Fin 0)"
  by (auto simp: validate_def)

lemma Config_constructor_empty:
  "Config_constructor Map.empty =
     Inr \<lparr>maxTickets = Fin 25,
          ticketPrices = (\<lambda>t. case t of INFANT \<Rightarrow> Fin 0 | CHILD \<Rightarrow> Fin 15 | ADULT \<Rightarrow> Fin 25),
          enforceInfantAdultRatio = True, nodeEnv = ''development''\<rparr>"
  by (simp add: Config_constructor_def getEnvAsInt_def getEnvAsBool_def validate_def num_le_def)

lemma purchaseTickets2_defaults:
  assumes "MAX_TICKETS this = Fin 25" and "TICKET_PRICES this ADULT = Fin 25"
    and "TICKET_PRICES this CHILD = Fin 15" and "TICKET_PRICES this INFANT = Fin 0"
    and "ENFORCE_INFANT_ADULT_RATIO this"
  shows "purchaseTickets2 this a xs s = purchaseTickets1 a xs s"
proof -
  have r: "validateBusinessRules2 this c = validateBusinessRules1 c" for c
    using assms by (simp add: validateBusinessRules2_def validateBusinessRules1_def MAX_TICKETS1_def)
  have p: "calculateTotalAmount2 this c = calculateTotalAmount1 c" for c
    using assms by (simp add: calculateTotalAmount2_def calculateTotalAmount1_def)
  show ?thesis
    by (simp add: purchaseTickets2_def purchaseTickets1_def r p split: sum.splits)
qed

lemma purchaseTickets2_history:
  "purchaseTickets2 this a xs s =
     (fst (purchaseTickets2 this a xs []), s @ snd (purchaseTickets2 this a xs []))"
  by (simp add: purchaseTickets2_def Let_def split: sum.splits)

lemma purchaseTickets1_history:
  "purchaseTickets1 a xs s =
     (fst (purchaseTickets1 a xs []), s @ snd (purchaseTickets1 a xs []))"
  by (simp add: purchaseTickets1_def Let_def split: sum.splits)

section \<open>Acceptance and rejection in the exact range\<close>


lemma num_le_not_lt: "num_le x y \<Longrightarrow> \<not> num_lt y x"
  by (simp add: num_le_def)




lemma price_lower_bound:
  assumes "1 \<le> aggregate ADULT xs" "0 \<le> aggregate CHILD xs" "0 \<le> aggregate INFANT xs"
    and "0 \<le> p ADULT" "0 \<le> p CHILD" "0 \<le> p INFANT"
  shows "p ADULT \<le> price p xs"
proof -
  from assms have "1 * p ADULT \<le> aggregate ADULT xs * p ADULT"
    by (intro mult_right_mono) simp_all
  moreover from assms have "0 \<le> aggregate CHILD xs * p CHILD" "0 \<le> aggregate INFANT xs * p INFANT"
    by simp_all
  ultimately show ?thesis by (simp add: price_def)
qed

lemma purchaseTickets2_success:
  assumes ok: "purchaseTickets2 this a xs s = (Inr u, s')"
  shows "positive_integer a \<and> xs \<noteq> [] \<and> list_all valid_item xs \<and>
         (\<exists>c. (\<forall>t. follows (c t) (aggregate t xs)) \<and> validateBusinessRules2 this c = Inr ()
               \<and> s' = s @ [makePayment a (calculateTotalAmount2 this c),
                            reserveSeat a (calculateTotalSeats c)])"
proof -
  have valid: "positive_integer a \<and> xs \<noteq> [] \<and> list_all valid_item xs"
  proof (rule ccontr)
    assume "\<not> (positive_integer a \<and> xs \<noteq> [] \<and> list_all valid_item xs)"
    from purchaseTickets2_invalid_input [OF this, of this s] ok show False by auto
  qed
  then have a: "positive_integer a" and ne: "xs \<noteq> []" and v: "list_all valid_item xs"
    by simp_all
  from purchaseTickets2_follows [OF a ne v, of this s] obtain c
    where f: "\<forall>t. follows (c t) (aggregate t xs)"
      and p: "purchaseTickets2 this a xs s =
             (case validateBusinessRules2 this c of
                Inl e \<Rightarrow> (Inl e, s)
              | Inr _ \<Rightarrow> (Inr (), s @ [makePayment a (calculateTotalAmount2 this c),
                                        reserveSeat a (calculateTotalSeats c)]))"
    by blast
  from p ok have "validateBusinessRules2 this c = Inr ()
     \<and> s' = s @ [makePayment a (calculateTotalAmount2 this c),
                  reserveSeat a (calculateTotalSeats c)]"
    by (cases "validateBusinessRules2 this c") auto
  with valid f show ?thesis by blast
qed


section \<open>Lower bounds that rounding keeps\<close>

lemma round_half_even_cases:
  "round_half_even q m = (m div q) * q \<or> round_half_even q m = (m div q + 1) * q"
  by (simp add: round_half_even_def Let_def)

lemma number_value_nonneg_cases:
  assumes "0 \<le> n"
  shows "number_value n = PlusInfinity
         \<or> number_value n = Fin (round_half_even (2 ^ expo n 0) n)"
  using assms by (simp add: number_value_def Let_def)

lemma div_less_of_less_mult:
  fixes q :: int
  assumes q: "0 < q" and "n < c * q"
  shows "n div q < c"
proof -
  have "(n div q) * q + n mod q = n" by simp
  moreover from q have "0 \<le> n mod q" by simp
  ultimately have "(n div q) * q \<le> n" by linarith
  with assms(2) have "(n div q) * q < c * q" by simp
  with q show ?thesis by (simp add: mult_less_cancel_right)
qed

lemma div_pow_bound:
  assumes "0 \<le> n"
  shows "0 \<le> n div 2 ^ expo n 0" and "n div 2 ^ expo n 0 < 2 ^ 53"
proof -
  from assms show "0 \<le> n div 2 ^ expo n 0" by (simp add: pos_imp_zdiv_nonneg_iff)
  have "n < 2 ^ (53 + expo n 0)" by (rule expo_bound)
  then have "n < 2 ^ 53 * 2 ^ expo n 0" by (simp add: power_add)
  then show "n div 2 ^ expo n 0 < 2 ^ 53"
    by (intro div_less_of_less_mult) simp_all
qed

lemma number_value_dbl:
  assumes n: "0 \<le> n" and v: "number_value n = Fin v"
  shows "dbl v"
proof -
  let ?e = "expo n 0" and ?k = "n div 2 ^ expo n 0"
  from number_value_nonneg_cases [OF n] v
  have "v = round_half_even (2 ^ ?e) n" by simp
  with round_half_even_cases [of "2 ^ ?e" n]
  have "v = ?k * 2 ^ ?e \<or> v = (?k + 1) * 2 ^ ?e" by simp
  moreover from div_pow_bound [OF n] have "0 \<le> ?k" "?k \<le> 2 ^ 53" "0 \<le> ?k + 1" "?k + 1 \<le> 2 ^ 53"
    by simp_all
  ultimately show ?thesis unfolding dbl_def by blast
qed

lemma number_value_neg:
  assumes "n < 0" and "number_value n = Fin v"
  shows "v \<le> 0"
proof -
  have "0 \<le> \<bar>n\<bar> div 2 ^ expo \<bar>n\<bar> 0" by (simp add: pos_imp_zdiv_nonneg_iff)
  then have "0 \<le> round_half_even (2 ^ expo \<bar>n\<bar> 0) \<bar>n\<bar>"
    using round_half_even_cases [of "2 ^ expo \<bar>n\<bar> 0" "\<bar>n\<bar>"] by auto
  with assms show ?thesis
    by (auto simp: number_value_def Let_def split: if_splits)
qed

lemma number_value_pos_dbl:
  assumes "number_value n = Fin v" and "0 < v"
  shows "dbl v"
proof (cases "n < 0")
  case True
  from number_value_neg [OF True assms(1)] assms(2) show ?thesis by simp
next
  case False
  then have "0 \<le> n" by simp
  from number_value_dbl [OF this assms(1)] show ?thesis .
qed

lemma multiple_le_div:
  fixes q :: int
  assumes q: "0 < q" and "c * q \<le> n"
  shows "c * q \<le> (n div q) * q"
proof -
  from assms(2) q have "(c * q) div q \<le> n div q" by (rule zdiv_mono1)
  with q have "c \<le> n div q" by simp
  with q show ?thesis by (simp add: mult_right_mono)
qed

lemma number_value_at_least:
  assumes d: "dbl d" and le: "d \<le> n"
  shows "at_least d (number_value n)"
proof -
  from d obtain k j where dk: "d = k * 2 ^ j" and k0: "0 \<le> k" and k53: "k \<le> 2 ^ 53"
    unfolding dbl_def by blast
  from dk k0 have d0: "0 \<le> d" by simp
  with le have n0: "0 \<le> n" by simp
  let ?e = "expo n 0"
  let ?q = "(2 :: int) ^ ?e"
  let ?v = "round_half_even ?q n"
  have q: "0 < ?q" by simp
  have low: "d \<le> (n div ?q) * ?q"
  proof (cases "?e \<le> j")
    case True
    then have "(2 :: int) ^ j = 2 ^ (j - ?e) * 2 ^ ?e"
      by (simp add: power_add [symmetric])
    with dk have "d = (k * 2 ^ (j - ?e)) * ?q" by simp
    with le multiple_le_div [OF q, of "k * 2 ^ (j - ?e)" n] show ?thesis by simp
  next
    case False
    then have je: "j < ?e" by simp
    then have "?e \<noteq> 0" by simp
    with expo_min [of n 0] have l: "2 ^ (52 + ?e) \<le> n" by simp
    have "(2 :: int) ^ 52 * ?q \<le> (n div ?q) * ?q"
      using multiple_le_div [OF q, of "2 ^ 52" n] l by (simp add: power_add)
    moreover have "d \<le> 2 ^ 52 * ?q"
    proof -
      from je have "Suc j \<le> ?e" by simp
      then have "(2 :: int) ^ Suc j \<le> 2 ^ ?e" by (intro power_increasing) simp_all
      then have "(2 :: int) ^ 52 * 2 ^ Suc j \<le> 2 ^ 52 * 2 ^ ?e"
        by (intro mult_left_mono) simp_all
      then have a: "(2 :: int) ^ 53 * 2 ^ j \<le> 2 ^ 52 * 2 ^ ?e" by simp
      from k53 have "k * 2 ^ j \<le> 2 ^ 53 * 2 ^ j"
        by (intro mult_right_mono) simp_all
      then have "k * 2 ^ j \<le> 2 ^ 52 * 2 ^ ?e" using a by (rule order_trans)
      with dk show ?thesis by simp
    qed
    ultimately show ?thesis by (rule order_trans [rotated])
  qed
  also have "\<dots> \<le> ?v" by (rule round_half_even_ge [OF q])
  finally have "d \<le> ?v" .
  with number_value_nonneg_cases [OF n0] show ?thesis
    by (auto simp: at_least_def)
qed

lemma dbl_zero: "dbl 0"
  unfolding dbl_def by (intro exI [of _ 0]) simp

lemma dbl_small: "0 \<le> d \<Longrightarrow> d \<le> 2 ^ 53 \<Longrightarrow> dbl d"
  unfolding dbl_def by (intro exI [of _ d] exI [of _ 0]) simp

lemma at_least_add:
  assumes x: "at_least 0 x" and y: "at_least d y" and d: "dbl d"
  shows "at_least d (num_add x y)"
proof -
  from x consider "x = PlusInfinity" | v where "x = Fin v" "0 \<le> v"
    unfolding at_least_def by blast
  then show ?thesis
  proof cases
    case 1
    with y show ?thesis by (auto simp: at_least_def)
  next
    case (2 v)
    from y consider "y = PlusInfinity" | w where "y = Fin w" "d \<le> w"
      unfolding at_least_def by blast
    then show ?thesis
    proof cases
      case 1
      with 2 show ?thesis by (simp add: at_least_def)
    next
      case (2 w)
      with \<open>x = Fin v\<close> \<open>0 \<le> v\<close> number_value_at_least [OF d, of "v + w"]
      show ?thesis by simp
    qed
  qed
qed

lemma at_least_mul:
  assumes x: "x = Fin c" "0 \<le> c" and p: "0 \<le> p"
  shows "at_least 0 (num_mul x (Fin p))"
  using number_value_at_least [OF dbl_zero, of "c * p"] x p by simp

lemma at_least_mul_adult:
  assumes x: "x = Fin c" "1 \<le> c" and p: "0 \<le> p" "dbl p"
  shows "at_least p (num_mul x (Fin p))"
proof -
  from x p have "1 * p \<le> c * p" by (intro mult_right_mono) simp_all
  with number_value_at_least [OF p(2), of "c * p"] x show ?thesis by simp
qed


lemma num_add_PlusInfinity:
  assumes "at_least 0 x"
  shows "num_add x PlusInfinity = PlusInfinity" and "num_add PlusInfinity x = PlusInfinity"
  using assms by (auto simp: at_least_def)

lemma follows_finite:
  assumes "0 \<le> n" and "follows x n"
  shows "x = PlusInfinity \<or> (\<exists>v. x = Fin v \<and> 0 \<le> v \<and> (1 \<le> n \<longrightarrow> 1 \<le> v))"
  using assms(2,1) by (cases rule: follows_cases) auto

lemma finite_limit_finite_counts:
  assumes v: "list_all valid_item xs" and f: "\<And>t. follows (c t) (aggregate t xs)"
    and ok: "validateBusinessRules2 this c = Inr ()" and m: "is_finite (MAX_TICKETS this)"
  shows "\<exists>n. c t = Fin n \<and> 0 \<le> n \<and> (1 \<le> aggregate t xs \<longrightarrow> 1 \<le> n)"
proof -
  note nn = aggregate_nonneg [OF v]
  note fin = follows_finite [OF nn f]
  from m obtain l where l: "MAX_TICKETS this = Fin l"
    by (cases "MAX_TICKETS this") (simp_all add: is_finite_def)
  from total_follows [OF v f] have t: "follows
    (num_add (num_add (c INFANT) (c CHILD)) (c ADULT)) (total_quantity xs)" .
  from ok l have le: "\<not> num_gt (num_add (num_add (c INFANT) (c CHILD)) (c ADULT)) (Fin l)"
    by (simp add: validateBusinessRules2_def Let_def split: if_splits)
  have z: "at_least 0 (c t)" for t
    using fin [of t] by (auto simp: at_least_def)
  have all: "c INFANT \<noteq> PlusInfinity \<and> c CHILD \<noteq> PlusInfinity \<and> c ADULT \<noteq> PlusInfinity"
  proof (rule ccontr)
    assume a: "\<not> ?thesis"
    have "num_add (num_add (c INFANT) (c CHILD)) (c ADULT) = PlusInfinity"
    proof (cases "c ADULT = PlusInfinity")
      case True
      with at_least_add [OF z z dbl_zero, of INFANT CHILD] show ?thesis
        by (simp add: num_add_PlusInfinity)
    next
      case False
      with a have "c INFANT = PlusInfinity \<or> c CHILD = PlusInfinity" by simp
      with z [of INFANT] z [of CHILD] have "num_add (c INFANT) (c CHILD) = PlusInfinity"
        by (auto simp: num_add_PlusInfinity)
      with z [of ADULT] show ?thesis by (simp add: num_add_PlusInfinity)
    qed
    with le show False by (simp add: num_gt_def)
  qed
  then have "c t \<noteq> PlusInfinity" by (cases t) simp_all
  with fin [of t] show ?thesis by blast
qed

lemma getEnvAsInt_dbl:
  assumes g: "getEnvAsInt process_env key (Fin d) = Inr (Fin p)" and d: "dbl d" and p: "0 < p"
  shows "dbl p"
proof (cases "process_env key = None \<or> process_env key = Some []")
  case True
  from getEnvAsInt_default [of process_env key "Fin d"] True g d show ?thesis by simp
next
  case False
  then obtain str where "process_env key = Some str" "str \<noteq> []" by auto
  with g have "parseInt10 str = Fin p"
    by (simp add: getEnvAsInt_def Let_def split: if_splits)
  then obtain n where "number_value n = Fin p"
    by (auto simp: parseInt10_def Let_def split: if_splits)
  from number_value_pos_dbl [OF this p] show ?thesis .
qed

lemma Config_constructor_adult_price:
  assumes cfg: "Config_constructor process_env = Inr config"
    and p: "ticketPrices config ADULT = Fin p"
  shows "dbl p" and "0 < p"
proof -
  from Config_constructor_Inr(1) [OF cfg] p show pos: "0 < p"
    by (simp add: validate_Inr_iff num_le_def)
  from cfg obtain d where "getEnvAsInt process_env ''TICKET_PRICE_ADULT'' (Fin 25) = Inr d"
    and "ticketPrices config ADULT = d"
    unfolding Config_constructor_def
    by (auto simp: Let_def split: sum.splits unit.splits)
  with p have "getEnvAsInt process_env ''TICKET_PRICE_ADULT'' (Fin 25) = Inr (Fin p)" by simp
  from getEnvAsInt_dbl [OF this _ pos] show "dbl p" by (simp add: dbl_small)
qed

lemma finite_amount_lower_bound:
  assumes cfg: "Config_constructor process_env = Inr config"
    and v: "list_all valid_item xs" and f: "\<And>t. follows (c t) (aggregate t xs)"
    and ok: "validateBusinessRules2 (TicketService_constructor config) c = Inr ()"
    and adult: "1 \<le> aggregate ADULT xs"
    and m: "is_finite (maxTickets config)"
    and pf: "is_finite (ticketPrices config INFANT)" "is_finite (ticketPrices config CHILD)"
      "is_finite (ticketPrices config ADULT)"
  shows "num_le (ticketPrices config ADULT)
           (calculateTotalAmount2 (TicketService_constructor config) c)"
    and "num_lt (Fin 0) (calculateTotalAmount2 (TicketService_constructor config) c)"
proof -
  let ?svc = "TicketService_constructor config"
  from m have m': "is_finite (MAX_TICKETS ?svc)" by (simp add: TicketService_constructor_def)
  note cnt = finite_limit_finite_counts [OF v f ok m']
  from cnt [of INFANT] obtain ni where ni: "c INFANT = Fin ni" "0 \<le> ni" by blast
  from cnt [of CHILD] obtain nc where nc: "c CHILD = Fin nc" "0 \<le> nc" by blast
  from cnt [of ADULT] adult obtain na where na: "c ADULT = Fin na" "1 \<le> na" by blast
  from pf obtain pi pc pa where pr: "ticketPrices config INFANT = Fin pi"
    "ticketPrices config CHILD = Fin pc" "ticketPrices config ADULT = Fin pa"
    by (cases "ticketPrices config INFANT"; cases "ticketPrices config CHILD";
        cases "ticketPrices config ADULT") (simp_all add: is_finite_def)
  from Config_constructor_Inr(1) [OF cfg] pr have nonneg: "0 \<le> pi" "0 \<le> pc"
    by (simp_all add: validate_Inr_iff)
  note pa = Config_constructor_adult_price [OF cfg pr(3)]
  from pa(2) have pa0: "0 \<le> pa" by simp
  have i: "at_least 0 (num_mul (c INFANT) (Fin pi))" by (rule at_least_mul [OF ni nonneg(1)])
  have ch: "at_least 0 (num_mul (c CHILD) (Fin pc))" by (rule at_least_mul [OF nc nonneg(2)])
  have a: "at_least pa (num_mul (c ADULT) (Fin pa))"
    by (rule at_least_mul_adult [OF na pa0 pa(1)])
  from at_least_add [OF at_least_add [OF i ch dbl_zero] a pa(1)] pr
  have "at_least pa (calculateTotalAmount2 ?svc c)"
    by (simp add: calculateTotalAmount2_def TicketService_constructor_def)
  then consider "calculateTotalAmount2 ?svc c = PlusInfinity"
    | w where "calculateTotalAmount2 ?svc c = Fin w" "pa \<le> w"
    unfolding at_least_def by blast
  then have "num_le (Fin pa) (calculateTotalAmount2 ?svc c)
             \<and> num_lt (Fin 0) (calculateTotalAmount2 ?svc c)"
    using pa(2) by cases (simp_all add: num_le_def)
  with pr show "num_le (ticketPrices config ADULT) (calculateTotalAmount2 ?svc c)"
    and "num_lt (Fin 0) (calculateTotalAmount2 ?svc c)" by simp_all
qed


section \<open>The claims\<close>







text \<open>
  C3, as stated, fails for a limit of \<open>2 ^ 53\<close> or more. The configuration accepts
  \<^verbatim>\<open>MAX_TICKETS=9007199254740992\<close>; 9007199254740992 Adults and one Child exceed it by
  one, the sum in doubles is 9007199254740992, and the purchase pays and reserves.
\<close>

theorem over_the_limit_beyond_exact_range_counterexample:
  "positive_integer (Num 1)
   \<and> list_all valid_item
     [Instance (TicketTypeRequest ADULT 9007199254740992), Instance (TicketTypeRequest CHILD 1)]
   \<and> total_quantity
       [Instance (TicketTypeRequest ADULT 9007199254740992), Instance (TicketTypeRequest CHILD 1)]
      = 9007199254740993
   \<and> Config_constructor [''MAX_TICKETS'' \<mapsto> ''9007199254740992''] =
       Inr \<lparr>maxTickets = Fin 9007199254740992,
            ticketPrices = (\<lambda>t. case t of INFANT \<Rightarrow> Fin 0 | CHILD \<Rightarrow> Fin 15 | ADULT \<Rightarrow> Fin 25),
            enforceInfantAdultRatio = True, nodeEnv = ''development''\<rparr>
   \<and> purchaseTickets2
        \<lparr>TICKET_PRICES = (\<lambda>t. case t of INFANT \<Rightarrow> Fin 0 | CHILD \<Rightarrow> Fin 15 | ADULT \<Rightarrow> Fin 25),
         MAX_TICKETS = Fin 9007199254740992, ENFORCE_INFANT_ADULT_RATIO = True\<rparr>
        (Num 1)
        [Instance (TicketTypeRequest ADULT 9007199254740992), Instance (TicketTypeRequest CHILD 1)]
        []
      = (Inr (), [makePayment (Num 1) (Fin 225179981368524800),
                  reserveSeat (Num 1) (Fin 9007199254740992)])"
proof -
  have nv: "number_value 9007199254740992 = Fin 9007199254740992" by code_simp
  have c: "Config_constructor [''MAX_TICKETS'' \<mapsto> ''9007199254740992''] =
       Inr \<lparr>maxTickets = Fin 9007199254740992,
            ticketPrices = (\<lambda>t. case t of INFANT \<Rightarrow> Fin 0 | CHILD \<Rightarrow> Fin 15 | ADULT \<Rightarrow> Fin 25),
            enforceInfantAdultRatio = True, nodeEnv = ''development''\<rparr>"
    by (simp add: Config_constructor_def getEnvAsInt_def getEnvAsBool_def validate_def num_le_def
          parseInt10_def isWhiteSpace_def isDigit_def digitValue_def isNaN_def Let_def nv)
  have p: "purchaseTickets2
        \<lparr>TICKET_PRICES = (\<lambda>t. case t of INFANT \<Rightarrow> Fin 0 | CHILD \<Rightarrow> Fin 15 | ADULT \<Rightarrow> Fin 25),
         MAX_TICKETS = Fin 9007199254740992, ENFORCE_INFANT_ADULT_RATIO = True\<rparr>
        (Num 1)
        [Instance (TicketTypeRequest ADULT 9007199254740992), Instance (TicketTypeRequest CHILD 1)]
        []
      = (Inr (), [makePayment (Num 1) (Fin 225179981368524800),
                  reserveSeat (Num 1) (Fin 9007199254740992)])"
    by code_simp
  from c p show ?thesis
    by (simp add: valid_item_def total_quantity_def quantity_for_def)
qed

text \<open>
  C3, amended. For every request set with a valid account, at least one request and only
  valid items of positive quantity, whose total aggregated quantity exceeds the maximum,
  the purchase fails with LimitExceeded, whatever the mix of categories, provided the
  configured maximum is below \<open>2 ^ 53\<close> or the total quantity is. The first version, with
  its limit 25, does so for every request set. No collaborator is called.
\<close>

theorem over_the_limit_is_LimitExceeded:
  assumes "positive_integer a" and "xs \<noteq> []" and "list_all valid_item xs"
  shows "(MAX_TICKETS this = Fin m \<and> m < 2 ^ 53 \<and> m < total_quantity xs \<longrightarrow>
            purchaseTickets2 this a xs s = (Inl (LimitExceeded (Fin m)), s))
       \<and> (total_quantity xs < 2 ^ 53 \<and> num_lt (MAX_TICKETS this) (Fin (total_quantity xs)) \<longrightarrow>
            purchaseTickets2 this a xs s = (Inl (LimitExceeded (MAX_TICKETS this)), s))
       \<and> (25 < total_quantity xs \<longrightarrow>
            purchaseTickets1 a xs s = (Inl (LimitExceeded (Fin 25)), s))"
proof (intro conjI impI)
  assume h: "MAX_TICKETS this = Fin m \<and> m < 2 ^ 53 \<and> m < total_quantity xs"
  from purchaseTickets2_follows [OF assms, of this s] obtain c
    where f: "\<And>t. follows (c t) (aggregate t xs)"
      and p: "purchaseTickets2 this a xs s =
             (case validateBusinessRules2 this c of
                Inl e \<Rightarrow> (Inl e, s)
              | Inr _ \<Rightarrow> (Inr (), s @ [makePayment a (calculateTotalAmount2 this c),
                                        reserveSeat a (calculateTotalSeats c)]))"
    by blast
  from h have "validateBusinessRules2 this c = Inl (LimitExceeded (Fin m))"
    by (intro validateBusinessRules2_limit [OF assms(3) f]) simp_all
  with p show "purchaseTickets2 this a xs s = (Inl (LimitExceeded (Fin m)), s)" by simp
next
  assume "total_quantity xs < 2 ^ 53 \<and> num_lt (MAX_TICKETS this) (Fin (total_quantity xs))"
  then show "purchaseTickets2 this a xs s = (Inl (LimitExceeded (MAX_TICKETS this)), s)"
    using purchaseTickets2_exact [OF assms, of this s] by simp
next
  assume "25 < total_quantity xs"
  then show "purchaseTickets1 a xs s = (Inl (LimitExceeded (Fin 25)), s)"
    using purchaseTickets1_valid_items [OF assms, of s] by simp
qed

theorem over_the_limit_is_LimitExceeded_witness:
  "positive_integer (Num 1)
   \<and> [Instance (TicketTypeRequest CHILD 20), Instance (TicketTypeRequest INFANT 6)] \<noteq> []
   \<and> list_all valid_item
        [Instance (TicketTypeRequest CHILD 20), Instance (TicketTypeRequest INFANT 6)]
   \<and> (25 :: int) < 2 ^ 53
   \<and> 25 < total_quantity
        [Instance (TicketTypeRequest CHILD 20), Instance (TicketTypeRequest INFANT 6)]
   \<and> total_quantity
        [Instance (TicketTypeRequest CHILD 20), Instance (TicketTypeRequest INFANT 6)] < 2 ^ 53
   \<and> num_lt (Fin 25) (Fin (total_quantity
        [Instance (TicketTypeRequest CHILD 20), Instance (TicketTypeRequest INFANT 6)]))
   \<and> purchaseTickets2
        \<lparr>TICKET_PRICES = TICKET_PRICES1, MAX_TICKETS = Fin 25,
         ENFORCE_INFANT_ADULT_RATIO = True\<rparr>
        (Num 1) [Instance (TicketTypeRequest CHILD 20), Instance (TicketTypeRequest INFANT 6)] []
      = (Inl (LimitExceeded (Fin 25)), [])
   \<and> purchaseTickets1
        (Num 1) [Instance (TicketTypeRequest CHILD 20), Instance (TicketTypeRequest INFANT 6)] []
      = (Inl (LimitExceeded (Fin 25)), [])"
proof -
  let ?xs = "[Instance (TicketTypeRequest CHILD 20), Instance (TicketTypeRequest INFANT 6)]"
  have a: "positive_integer (Num 1)" by simp
  have ne: "?xs \<noteq> []" by simp
  have v: "list_all valid_item ?xs" by (simp add: valid_item_def)
  have t: "total_quantity ?xs = 26" by (simp add: total_quantity_def quantity_for_def)
  from over_the_limit_is_LimitExceeded [OF a ne v,
      of "\<lparr>TICKET_PRICES = TICKET_PRICES1, MAX_TICKETS = Fin 25,
           ENFORCE_INFANT_ADULT_RATIO = True\<rparr>" 25 "[]"]
    a ne v t
  show ?thesis by simp
qed

text \<open>
  C4, as stated, fails: one request of 26 Child tickets has a positive Child count and no
  Adult, and the purchase answers LimitExceeded, not MissingAdult, because the limit is
  checked before the adult rule. It also fails within the limit beyond \<open>2 ^ 53\<close>: with
  the limit 9007199254740998, the Infant quantities 9007199254740992 and 3 and the Child
  quantity 3 total exactly the limit, the sums in doubles round up to 9007199254741000,
  and the purchase answers LimitExceeded.
\<close>

theorem no_adult_over_the_limit_counterexample:
  "positive_integer (Num 1)
   \<and> [Instance (TicketTypeRequest CHILD 26)] \<noteq> []
   \<and> list_all valid_item [Instance (TicketTypeRequest CHILD 26)]
   \<and> 0 < aggregate CHILD [Instance (TicketTypeRequest CHILD 26)]
   \<and> aggregate ADULT [Instance (TicketTypeRequest CHILD 26)] = 0
   \<and> purchaseTickets2
        \<lparr>TICKET_PRICES = TICKET_PRICES1, MAX_TICKETS = Fin 25,
         ENFORCE_INFANT_ADULT_RATIO = True\<rparr>
        (Num 1) [Instance (TicketTypeRequest CHILD 26)] []
      = (Inl (LimitExceeded (Fin 25)), [])
   \<and> purchaseTickets1 (Num 1) [Instance (TicketTypeRequest CHILD 26)] []
      = (Inl (LimitExceeded (Fin 25)), [])
   \<and> LimitExceeded (Fin 25) \<noteq> MissingAdult
   \<and> list_all valid_item
        [Instance (TicketTypeRequest INFANT 9007199254740992),
         Instance (TicketTypeRequest INFANT 3), Instance (TicketTypeRequest CHILD 3)]
   \<and> 0 < aggregate CHILD
        [Instance (TicketTypeRequest INFANT 9007199254740992),
         Instance (TicketTypeRequest INFANT 3), Instance (TicketTypeRequest CHILD 3)]
   \<and> aggregate ADULT
        [Instance (TicketTypeRequest INFANT 9007199254740992),
         Instance (TicketTypeRequest INFANT 3), Instance (TicketTypeRequest CHILD 3)] = 0
   \<and> total_quantity
        [Instance (TicketTypeRequest INFANT 9007199254740992),
         Instance (TicketTypeRequest INFANT 3), Instance (TicketTypeRequest CHILD 3)]
      = 9007199254740998
   \<and> purchaseTickets2
        \<lparr>TICKET_PRICES = TICKET_PRICES1, MAX_TICKETS = Fin 9007199254740998,
         ENFORCE_INFANT_ADULT_RATIO = True\<rparr>
        (Num 1)
        [Instance (TicketTypeRequest INFANT 9007199254740992),
         Instance (TicketTypeRequest INFANT 3), Instance (TicketTypeRequest CHILD 3)] []
      = (Inl (LimitExceeded (Fin 9007199254740998)), [])"
proof -
  have p1: "purchaseTickets2
        \<lparr>TICKET_PRICES = TICKET_PRICES1, MAX_TICKETS = Fin 25,
         ENFORCE_INFANT_ADULT_RATIO = True\<rparr>
        (Num 1) [Instance (TicketTypeRequest CHILD 26)] []
      = (Inl (LimitExceeded (Fin 25)), [])"
    by code_simp
  have p2: "purchaseTickets1 (Num 1) [Instance (TicketTypeRequest CHILD 26)] []
      = (Inl (LimitExceeded (Fin 25)), [])"
    by code_simp
  have p3: "purchaseTickets2
        \<lparr>TICKET_PRICES = TICKET_PRICES1, MAX_TICKETS = Fin 9007199254740998,
         ENFORCE_INFANT_ADULT_RATIO = True\<rparr>
        (Num 1)
        [Instance (TicketTypeRequest INFANT 9007199254740992),
         Instance (TicketTypeRequest INFANT 3), Instance (TicketTypeRequest CHILD 3)] []
      = (Inl (LimitExceeded (Fin 9007199254740998)), [])"
    by code_simp
  from p1 p2 p3 show ?thesis
    by (simp add: valid_item_def quantity_for_def total_quantity_def)
qed

text \<open>
  C4, amended. For every request set with a valid account, at least one request and only
  valid items of positive quantity, whose aggregated Child count or Infant count is greater
  than 0 while the aggregated Adult count is 0, and whose total quantity does not exceed the
  maximum and is below \<open>2 ^ 53\<close>, the purchase fails with MissingAdult.
\<close>

theorem no_adult_within_the_limit_is_MissingAdult:
  assumes "positive_integer a" and "xs \<noteq> []" and "list_all valid_item xs"
    and "0 < aggregate CHILD xs \<or> 0 < aggregate INFANT xs" and "aggregate ADULT xs = 0"
  shows "(total_quantity xs < 2 ^ 53 \<and> num_le (Fin (total_quantity xs)) (MAX_TICKETS this) \<longrightarrow>
            purchaseTickets2 this a xs s = (Inl MissingAdult, s))
       \<and> (total_quantity xs \<le> 25 \<longrightarrow>
            purchaseTickets1 a xs s = (Inl MissingAdult, s))"
proof (intro conjI impI)
  assume "total_quantity xs < 2 ^ 53 \<and> num_le (Fin (total_quantity xs)) (MAX_TICKETS this)"
  then have t: "total_quantity xs < 2 ^ 53"
    and "\<not> num_lt (MAX_TICKETS this) (Fin (total_quantity xs))"
    by (simp_all add: num_le_not_lt)
  with assms(4,5) show "purchaseTickets2 this a xs s = (Inl MissingAdult, s)"
    unfolding purchaseTickets2_exact [OF assms(1-3) t] by simp
next
  assume "total_quantity xs \<le> 25"
  with assms(4,5) show "purchaseTickets1 a xs s = (Inl MissingAdult, s)"
    unfolding purchaseTickets1_valid_items [OF assms(1-3)] by simp
qed

theorem no_adult_within_the_limit_is_MissingAdult_witness:
  "positive_integer (Num 1)
   \<and> [Instance (TicketTypeRequest CHILD 2), Instance (TicketTypeRequest INFANT 1)] \<noteq> []
   \<and> list_all valid_item
        [Instance (TicketTypeRequest CHILD 2), Instance (TicketTypeRequest INFANT 1)]
   \<and> (0 < aggregate CHILD
            [Instance (TicketTypeRequest CHILD 2), Instance (TicketTypeRequest INFANT 1)]
      \<or> 0 < aggregate INFANT
            [Instance (TicketTypeRequest CHILD 2), Instance (TicketTypeRequest INFANT 1)])
   \<and> aggregate ADULT
        [Instance (TicketTypeRequest CHILD 2), Instance (TicketTypeRequest INFANT 1)] = 0
   \<and> total_quantity
        [Instance (TicketTypeRequest CHILD 2), Instance (TicketTypeRequest INFANT 1)] < 2 ^ 53
   \<and> num_le (Fin (total_quantity
        [Instance (TicketTypeRequest CHILD 2), Instance (TicketTypeRequest INFANT 1)])) (Fin 25)
   \<and> total_quantity
        [Instance (TicketTypeRequest CHILD 2), Instance (TicketTypeRequest INFANT 1)] \<le> 25
   \<and> purchaseTickets2
        \<lparr>TICKET_PRICES = TICKET_PRICES1, MAX_TICKETS = Fin 25,
         ENFORCE_INFANT_ADULT_RATIO = True\<rparr>
        (Num 1) [Instance (TicketTypeRequest CHILD 2), Instance (TicketTypeRequest INFANT 1)] []
      = (Inl MissingAdult, [])
   \<and> purchaseTickets1
        (Num 1) [Instance (TicketTypeRequest CHILD 2), Instance (TicketTypeRequest INFANT 1)] []
      = (Inl MissingAdult, [])"
proof -
  let ?xs = "[Instance (TicketTypeRequest CHILD 2), Instance (TicketTypeRequest INFANT 1)]"
  have a: "positive_integer (Num 1)" by simp
  have ne: "?xs \<noteq> []" by simp
  have v: "list_all valid_item ?xs" by (simp add: valid_item_def)
  have c: "0 < aggregate CHILD ?xs \<or> 0 < aggregate INFANT ?xs" by (simp add: quantity_for_def)
  have z: "aggregate ADULT ?xs = 0" by (simp add: quantity_for_def)
  have t: "total_quantity ?xs = 3" by (simp add: total_quantity_def quantity_for_def)
  from no_adult_within_the_limit_is_MissingAdult [OF a ne v c z,
      of "\<lparr>TICKET_PRICES = TICKET_PRICES1, MAX_TICKETS = Fin 25,
           ENFORCE_INFANT_ADULT_RATIO = True\<rparr>" "[]"]
    a ne v c z t
  show ?thesis by (simp add: num_le_def)
qed

text \<open>
  C5, as stated, fails, with the ratio rule enabled: one Infant ticket alone exceeds the
  Adult count of 0 and the purchase answers MissingAdult; one Adult with 25 Infants exceeds
  the Adult count and the purchase answers LimitExceeded. Both rules are checked before the
  ratio rule. Beyond \<open>2 ^ 53\<close> it fails within the limit and with an Adult: with
  9007199254740992 Adults, the Infant quantities 9007199254740992 and 1 count as
  9007199254740992 in doubles, not more than the Adults, and the purchase is accepted.
\<close>

theorem more_infants_than_adults_counterexample:
  "positive_integer (Num 1)
   \<and> [Instance (TicketTypeRequest INFANT 1)] \<noteq> []
   \<and> list_all valid_item [Instance (TicketTypeRequest INFANT 1)]
   \<and> aggregate ADULT [Instance (TicketTypeRequest INFANT 1)]
       < aggregate INFANT [Instance (TicketTypeRequest INFANT 1)]
   \<and> purchaseTickets2
        \<lparr>TICKET_PRICES = TICKET_PRICES1, MAX_TICKETS = Fin 25,
         ENFORCE_INFANT_ADULT_RATIO = True\<rparr>
        (Num 1) [Instance (TicketTypeRequest INFANT 1)] []
      = (Inl MissingAdult, [])
   \<and> purchaseTickets1 (Num 1) [Instance (TicketTypeRequest INFANT 1)] []
      = (Inl MissingAdult, [])
   \<and> MissingAdult \<noteq> InfantRatioExceeded
   \<and> list_all valid_item
        [Instance (TicketTypeRequest ADULT 1), Instance (TicketTypeRequest INFANT 25)]
   \<and> aggregate ADULT
        [Instance (TicketTypeRequest ADULT 1), Instance (TicketTypeRequest INFANT 25)]
       < aggregate INFANT
        [Instance (TicketTypeRequest ADULT 1), Instance (TicketTypeRequest INFANT 25)]
   \<and> purchaseTickets2
        \<lparr>TICKET_PRICES = TICKET_PRICES1, MAX_TICKETS = Fin 25,
         ENFORCE_INFANT_ADULT_RATIO = True\<rparr>
        (Num 1) [Instance (TicketTypeRequest ADULT 1), Instance (TicketTypeRequest INFANT 25)] []
      = (Inl (LimitExceeded (Fin 25)), [])
   \<and> purchaseTickets1
        (Num 1) [Instance (TicketTypeRequest ADULT 1), Instance (TicketTypeRequest INFANT 25)] []
      = (Inl (LimitExceeded (Fin 25)), [])
   \<and> LimitExceeded (Fin 25) \<noteq> InfantRatioExceeded
   \<and> list_all valid_item
        [Instance (TicketTypeRequest ADULT 9007199254740992),
         Instance (TicketTypeRequest INFANT 9007199254740992),
         Instance (TicketTypeRequest INFANT 1)]
   \<and> aggregate ADULT
        [Instance (TicketTypeRequest ADULT 9007199254740992),
         Instance (TicketTypeRequest INFANT 9007199254740992),
         Instance (TicketTypeRequest INFANT 1)]
       < aggregate INFANT
        [Instance (TicketTypeRequest ADULT 9007199254740992),
         Instance (TicketTypeRequest INFANT 9007199254740992),
         Instance (TicketTypeRequest INFANT 1)]
   \<and> total_quantity
        [Instance (TicketTypeRequest ADULT 9007199254740992),
         Instance (TicketTypeRequest INFANT 9007199254740992),
         Instance (TicketTypeRequest INFANT 1)] \<le> 36028797018963968
   \<and> purchaseTickets2
        \<lparr>TICKET_PRICES = TICKET_PRICES1, MAX_TICKETS = Fin 36028797018963968,
         ENFORCE_INFANT_ADULT_RATIO = True\<rparr>
        (Num 1)
        [Instance (TicketTypeRequest ADULT 9007199254740992),
         Instance (TicketTypeRequest INFANT 9007199254740992),
         Instance (TicketTypeRequest INFANT 1)] []
      = (Inr (), [makePayment (Num 1) (Fin 225179981368524800),
                  reserveSeat (Num 1) (Fin 9007199254740992)])"
proof -
  have p1: "purchaseTickets2
        \<lparr>TICKET_PRICES = TICKET_PRICES1, MAX_TICKETS = Fin 25,
         ENFORCE_INFANT_ADULT_RATIO = True\<rparr>
        (Num 1) [Instance (TicketTypeRequest INFANT 1)] []
      = (Inl MissingAdult, [])"
    by code_simp
  have p2: "purchaseTickets1 (Num 1) [Instance (TicketTypeRequest INFANT 1)] []
      = (Inl MissingAdult, [])"
    by code_simp
  have p3: "purchaseTickets2
        \<lparr>TICKET_PRICES = TICKET_PRICES1, MAX_TICKETS = Fin 25,
         ENFORCE_INFANT_ADULT_RATIO = True\<rparr>
        (Num 1) [Instance (TicketTypeRequest ADULT 1), Instance (TicketTypeRequest INFANT 25)] []
      = (Inl (LimitExceeded (Fin 25)), [])"
    by code_simp
  have p4: "purchaseTickets1
        (Num 1) [Instance (TicketTypeRequest ADULT 1), Instance (TicketTypeRequest INFANT 25)] []
      = (Inl (LimitExceeded (Fin 25)), [])"
    by code_simp
  have p5: "purchaseTickets2
        \<lparr>TICKET_PRICES = TICKET_PRICES1, MAX_TICKETS = Fin 36028797018963968,
         ENFORCE_INFANT_ADULT_RATIO = True\<rparr>
        (Num 1)
        [Instance (TicketTypeRequest ADULT 9007199254740992),
         Instance (TicketTypeRequest INFANT 9007199254740992),
         Instance (TicketTypeRequest INFANT 1)] []
      = (Inr (), [makePayment (Num 1) (Fin 225179981368524800),
                  reserveSeat (Num 1) (Fin 9007199254740992)])"
    by code_simp
  from p1 p2 p3 p4 p5 show ?thesis
    by (simp add: valid_item_def quantity_for_def total_quantity_def)
qed

text \<open>
  C5, amended. With the ratio rule enabled, for every request set with a valid account, at
  least one request and only valid items of positive quantity, whose aggregated Infant count
  exceeds the aggregated Adult count, whose Adult count is at least 1 and whose total
  quantity does not exceed the maximum and is below \<open>2 ^ 53\<close>, the purchase fails with
  InfantRatioExceeded. The first version of the class always has the rule enabled.
\<close>

theorem more_infants_than_adults_is_InfantRatioExceeded:
  assumes "positive_integer a" and "xs \<noteq> []" and "list_all valid_item xs"
    and "aggregate ADULT xs < aggregate INFANT xs" and "0 < aggregate ADULT xs"
  shows "(ENFORCE_INFANT_ADULT_RATIO this \<and> total_quantity xs < 2 ^ 53
          \<and> num_le (Fin (total_quantity xs)) (MAX_TICKETS this) \<longrightarrow>
            purchaseTickets2 this a xs s = (Inl InfantRatioExceeded, s))
       \<and> (total_quantity xs \<le> 25 \<longrightarrow>
            purchaseTickets1 a xs s = (Inl InfantRatioExceeded, s))"
proof (intro conjI impI)
  assume h: "ENFORCE_INFANT_ADULT_RATIO this \<and> total_quantity xs < 2 ^ 53
          \<and> num_le (Fin (total_quantity xs)) (MAX_TICKETS this)"
  then have t: "total_quantity xs < 2 ^ 53"
    and "\<not> num_lt (MAX_TICKETS this) (Fin (total_quantity xs))"
    by (simp_all add: num_le_not_lt)
  with h assms(4,5) show "purchaseTickets2 this a xs s = (Inl InfantRatioExceeded, s)"
    unfolding purchaseTickets2_exact [OF assms(1-3) t] by simp
next
  assume "total_quantity xs \<le> 25"
  with assms(4,5) show "purchaseTickets1 a xs s = (Inl InfantRatioExceeded, s)"
    unfolding purchaseTickets1_valid_items [OF assms(1-3)] by simp
qed

theorem more_infants_than_adults_is_InfantRatioExceeded_witness:
  "positive_integer (Num 1)
   \<and> [Instance (TicketTypeRequest ADULT 1), Instance (TicketTypeRequest INFANT 2)] \<noteq> []
   \<and> list_all valid_item
        [Instance (TicketTypeRequest ADULT 1), Instance (TicketTypeRequest INFANT 2)]
   \<and> aggregate ADULT
        [Instance (TicketTypeRequest ADULT 1), Instance (TicketTypeRequest INFANT 2)]
       < aggregate INFANT
        [Instance (TicketTypeRequest ADULT 1), Instance (TicketTypeRequest INFANT 2)]
   \<and> 0 < aggregate ADULT
        [Instance (TicketTypeRequest ADULT 1), Instance (TicketTypeRequest INFANT 2)]
   \<and> total_quantity
        [Instance (TicketTypeRequest ADULT 1), Instance (TicketTypeRequest INFANT 2)] < 2 ^ 53
   \<and> num_le (Fin (total_quantity
        [Instance (TicketTypeRequest ADULT 1), Instance (TicketTypeRequest INFANT 2)])) (Fin 25)
   \<and> total_quantity
        [Instance (TicketTypeRequest ADULT 1), Instance (TicketTypeRequest INFANT 2)] \<le> 25
   \<and> purchaseTickets2
        \<lparr>TICKET_PRICES = TICKET_PRICES1, MAX_TICKETS = Fin 25,
         ENFORCE_INFANT_ADULT_RATIO = True\<rparr>
        (Num 1) [Instance (TicketTypeRequest ADULT 1), Instance (TicketTypeRequest INFANT 2)] []
      = (Inl InfantRatioExceeded, [])
   \<and> purchaseTickets1
        (Num 1) [Instance (TicketTypeRequest ADULT 1), Instance (TicketTypeRequest INFANT 2)] []
      = (Inl InfantRatioExceeded, [])"
proof -
  let ?xs = "[Instance (TicketTypeRequest ADULT 1), Instance (TicketTypeRequest INFANT 2)]"
  have a: "positive_integer (Num 1)" by simp
  have ne: "?xs \<noteq> []" by simp
  have v: "list_all valid_item ?xs" by (simp add: valid_item_def)
  have c: "aggregate ADULT ?xs < aggregate INFANT ?xs" by (simp add: quantity_for_def)
  have z: "0 < aggregate ADULT ?xs" by (simp add: quantity_for_def)
  have t: "total_quantity ?xs = 3" by (simp add: total_quantity_def quantity_for_def)
  from more_infants_than_adults_is_InfantRatioExceeded [OF a ne v c z,
      of "\<lparr>TICKET_PRICES = TICKET_PRICES1, MAX_TICKETS = Fin 25,
           ENFORCE_INFANT_ADULT_RATIO = True\<rparr>" "[]"]
    a ne v c z t
  show ?thesis by (simp add: num_le_def)
qed

text \<open>
  C6. For every accountId that is not a positive integer (zero, negative, not an integer,
  or not a number at all) and any request list whatever, also an empty one or one with
  invalid items, the purchase fails with InvalidAccount and calls no collaborator.
\<close>

theorem bad_account_is_InvalidAccount_first:
  assumes "\<not> positive_integer a"
  shows "purchaseTickets2 this a xs s = (Inl InvalidAccount, s)
       \<and> purchaseTickets1 a xs s = (Inl InvalidAccount, s)"
  using validateAccountId_bad [OF assms]
  by (simp add: purchaseTickets2_def purchaseTickets1_def)

theorem bad_account_is_InvalidAccount_first_witness:
  "\<not> positive_integer (Num 0)
   \<and> purchaseTickets2
        \<lparr>TICKET_PRICES = TICKET_PRICES1, MAX_TICKETS = Fin 25,
         ENFORCE_INFANT_ADULT_RATIO = True\<rparr>
        (Num 0) [] [] = (Inl InvalidAccount, [])
   \<and> purchaseTickets1 (Num 0) [Other, Instance (TicketTypeRequest CHILD 0)] []
      = (Inl InvalidAccount, [])
   \<and> \<not> positive_integer (Num (3 / 2))
   \<and> purchaseTickets1 (Num (3 / 2)) [Instance (TicketTypeRequest ADULT 1)] []
      = (Inl InvalidAccount, [])
   \<and> \<not> positive_integer Null
   \<and> purchaseTickets1 Null [Instance (TicketTypeRequest ADULT 1)] []
      = (Inl InvalidAccount, [])"
proof -
  have z: "\<not> positive_integer (Num 0)" by simp
  have "validateAccountId (Num (3 / 2)) \<noteq> Inr ()" by code_simp
  then have f: "\<not> positive_integer (Num (3 / 2))" by (simp add: validateAccountId_iff)
  have n: "\<not> positive_integer Null" by (simp add: positive_integer_def)
  from bad_account_is_InvalidAccount_first [OF z]
       bad_account_is_InvalidAccount_first [OF f]
       bad_account_is_InvalidAccount_first [OF n] z f n
  show ?thesis by simp
qed

text \<open>
  C7, as stated, fails: \<^verbatim>\<open>parseInt\<close> turns a Child price of 1 followed by 309 zeros
  into \<^verbatim>\<open>Infinity\<close>, which the configuration accepts as not negative; one Adult ticket
  then costs 0 times \<^verbatim>\<open>Infinity\<close> plus 25, which is \<^verbatim>\<open>NaN\<close>, neither at least the
  Adult price nor positive.
\<close>

theorem infinite_price_counterexample:
  "Config_constructor
     [''TICKET_PRICE_CHILD'' \<mapsto> CHR ''1'' # replicate 309 (CHR ''0'')] =
     Inr \<lparr>maxTickets = Fin 25,
          ticketPrices = (\<lambda>t. case t of INFANT \<Rightarrow> Fin 0 | CHILD \<Rightarrow> PlusInfinity
                                       | ADULT \<Rightarrow> Fin 25),
          enforceInfantAdultRatio = True, nodeEnv = ''development''\<rparr>
   \<and> purchaseTickets2
       (TicketService_constructor
          \<lparr>maxTickets = Fin 25,
           ticketPrices = (\<lambda>t. case t of INFANT \<Rightarrow> Fin 0 | CHILD \<Rightarrow> PlusInfinity
                                        | ADULT \<Rightarrow> Fin 25),
           enforceInfantAdultRatio = True, nodeEnv = ''development''\<rparr>)
       (Num 1) [Instance (TicketTypeRequest ADULT 1)] []
     = (Inr (), [makePayment (Num 1) NotANumber, reserveSeat (Num 1) (Fin 1)])
   \<and> \<not> num_le (Fin 25) NotANumber
   \<and> \<not> num_lt (Fin 0) NotANumber"
proof -
  have parse: "parseInt10 (CHR ''1'' # replicate 309 (CHR ''0'')) = PlusInfinity"
    by code_simp
  have c: "Config_constructor
     [''TICKET_PRICE_CHILD'' \<mapsto> CHR ''1'' # replicate 309 (CHR ''0'')] =
     Inr \<lparr>maxTickets = Fin 25,
          ticketPrices = (\<lambda>t. case t of INFANT \<Rightarrow> Fin 0 | CHILD \<Rightarrow> PlusInfinity
                                       | ADULT \<Rightarrow> Fin 25),
          enforceInfantAdultRatio = True, nodeEnv = ''development''\<rparr>"
    unfolding Config_constructor_def getEnvAsInt_def
    by (simp add: parse getEnvAsBool_def validate_def num_le_def isNaN_def Let_def)
  have p: "purchaseTickets2
       (TicketService_constructor
          \<lparr>maxTickets = Fin 25,
           ticketPrices = (\<lambda>t. case t of INFANT \<Rightarrow> Fin 0 | CHILD \<Rightarrow> PlusInfinity
                                        | ADULT \<Rightarrow> Fin 25),
           enforceInfantAdultRatio = True, nodeEnv = ''development''\<rparr>)
       (Num 1) [Instance (TicketTypeRequest ADULT 1)] []
     = (Inr (), [makePayment (Num 1) NotANumber, reserveSeat (Num 1) (Fin 1)])"
    by code_simp
  from c p show ?thesis by (simp add: num_le_def)
qed

text \<open>
  C7, amended. Every purchase that completes without error has an aggregated Adult count of
  at least 1, and the seat count handed to the reservation collaborator is at least 1. For
  the configured version, with a configuration that its constructor has built: where the
  ticket limit and the three unit prices are finite, the amount handed to the payment
  collaborator is at least the Adult unit price and strictly positive; where moreover the
  total quantity and the total price are below \<open>2 ^ 53\<close>, the amount is the total price
  and the seat count is the number of Adult and Child tickets. For the first version the
  amount is at least 25 for every purchase that completes.
\<close>

theorem successful_purchase_has_an_adult:
  "(Config_constructor process_env = Inr config \<and>
    purchaseTickets2 (TicketService_constructor config) a xs s = (Inr u, s') \<longrightarrow>
      1 \<le> aggregate ADULT xs
      \<and> (\<exists>amount n. s' = s @ [makePayment a amount, reserveSeat a n]
            \<and> num_le (Fin 1) n
            \<and> (is_finite (maxTickets config) \<and> is_finite (ticketPrices config INFANT)
                \<and> is_finite (ticketPrices config CHILD)
                \<and> is_finite (ticketPrices config ADULT) \<longrightarrow>
                 num_le (ticketPrices config ADULT) amount \<and> num_lt (Fin 0) amount)
            \<and> (exact_range (ticketPrices config) xs \<longrightarrow>
                 amount = Fin (price (\<lambda>t. price_of (ticketPrices config t)) xs)
                 \<and> n = Fin (seats xs)
                 \<and> num_le (ticketPrices config ADULT) amount
                 \<and> num_lt (Fin 0) amount)))
   \<and> (purchaseTickets1 a xs s = (Inr u, s') \<longrightarrow>
      1 \<le> aggregate ADULT xs
      \<and> s' = s @ [makePayment a (Fin (price (\<lambda>t. price_of (TICKET_PRICES1 t)) xs)),
                   reserveSeat a (Fin (seats xs))]
      \<and> 1 \<le> seats xs
      \<and> 25 \<le> price (\<lambda>t. price_of (TICKET_PRICES1 t)) xs)"
proof (intro conjI impI)
  assume h: "Config_constructor process_env = Inr config \<and>
    purchaseTickets2 (TicketService_constructor config) a xs s = (Inr u, s')"
  let ?svc = "TicketService_constructor config"
  from h have cfg: "Config_constructor process_env = Inr config"
    and ok: "purchaseTickets2 ?svc a xs s = (Inr u, s')" by simp_all
  from purchaseTickets2_success [OF ok] obtain c
    where ne: "xs \<noteq> []" and v: "list_all valid_item xs"
      and f: "\<And>t. follows (c t) (aggregate t xs)"
      and r: "validateBusinessRules2 ?svc c = Inr ()"
      and s': "s' = s @ [makePayment a (calculateTotalAmount2 ?svc c),
                         reserveSeat a (calculateTotalSeats c)]"
    by blast
  from validateBusinessRules2_adult [OF v f ne r] show adult: "1 \<le> aggregate ADULT xs" .
  note nn = aggregate_nonneg [OF v]
  from adult nn [of CHILD] have seats1: "1 \<le> seats xs" by (simp add: seats_def)
  from follows_ge_one [OF seats1 seats_follows [OF v f]]
  have n1: "num_le (Fin 1) (calculateTotalSeats c)" .
  have exact: "calculateTotalAmount2 ?svc c = Fin (price (\<lambda>t. price_of (ticketPrices config t)) xs)
               \<and> calculateTotalSeats c = Fin (seats xs)
               \<and> num_le (ticketPrices config ADULT) (calculateTotalAmount2 ?svc c)
               \<and> num_lt (Fin 0) (calculateTotalAmount2 ?svc c)"
    if e: "exact_range (ticketPrices config) xs"
  proof -
    from e have e': "exact_range (TICKET_PRICES ?svc) xs"
      by (simp add: TicketService_constructor_def)
    from e have t: "total_quantity xs < 2 ^ 53" by (simp add: exact_range_def)
    from counts_exact [OF v f t] have c: "c = (\<lambda>t. Fin (aggregate t xs))" .
    from calculateTotalAmount2_exact [OF v e']
    have amt: "calculateTotalAmount2 ?svc c = Fin (price (\<lambda>t. price_of (ticketPrices config t)) xs)"
      by (simp add: c TicketService_constructor_def)
    from calculateTotalSeats_exact [OF v t] have st: "calculateTotalSeats c = Fin (seats xs)"
      by (simp add: c)
    from e have np: "nonneg_price (ticketPrices config ADULT)"
      "nonneg_price (ticketPrices config CHILD)" "nonneg_price (ticketPrices config INFANT)"
      by (simp_all add: exact_range_def)
    note pd = np [THEN nonneg_priceD]
    from Config_constructor_Inr(1) [OF cfg]
    have "\<not> num_le (ticketPrices config ADULT) (Fin 0)" by (simp add: validate_Inr_iff)
    with pd(1) have pa: "0 < price_of (ticketPrices config ADULT)"
      by (cases "ticketPrices config ADULT") (simp_all add: num_le_def price_of_def)
    from price_lower_bound [OF adult nn nn, of "\<lambda>t. price_of (ticketPrices config t)"] pd
    have lb: "price_of (ticketPrices config ADULT)
                \<le> price (\<lambda>t. price_of (ticketPrices config t)) xs" by simp
    have "num_le (ticketPrices config ADULT) (calculateTotalAmount2 ?svc c)"
      using pd(1) lb unfolding amt
      by (cases "ticketPrices config ADULT") (simp_all add: num_le_def price_of_def)
    moreover have "num_lt (Fin 0) (calculateTotalAmount2 ?svc c)"
      using pa lb unfolding amt by simp
    ultimately show ?thesis using amt st by simp
  qed
  have finite: "num_le (ticketPrices config ADULT) (calculateTotalAmount2 ?svc c)
               \<and> num_lt (Fin 0) (calculateTotalAmount2 ?svc c)"
    if m: "is_finite (maxTickets config) \<and> is_finite (ticketPrices config INFANT)
           \<and> is_finite (ticketPrices config CHILD) \<and> is_finite (ticketPrices config ADULT)"
  proof -
    from m have m1: "is_finite (maxTickets config)"
      and m2: "is_finite (ticketPrices config INFANT)"
      and m3: "is_finite (ticketPrices config CHILD)"
      and m4: "is_finite (ticketPrices config ADULT)" by simp_all
    from finite_amount_lower_bound [OF cfg v f r adult m1 m2 m3 m4] show ?thesis by simp
  qed
  with exact s' n1 show "\<exists>amount n. s' = s @ [makePayment a amount, reserveSeat a n]
            \<and> num_le (Fin 1) n
            \<and> (is_finite (maxTickets config) \<and> is_finite (ticketPrices config INFANT)
                \<and> is_finite (ticketPrices config CHILD)
                \<and> is_finite (ticketPrices config ADULT) \<longrightarrow>
                 num_le (ticketPrices config ADULT) amount \<and> num_lt (Fin 0) amount)
            \<and> (exact_range (ticketPrices config) xs \<longrightarrow>
                 amount = Fin (price (\<lambda>t. price_of (ticketPrices config t)) xs)
                 \<and> n = Fin (seats xs)
                 \<and> num_le (ticketPrices config ADULT) amount
                 \<and> num_lt (Fin 0) amount)"
    by blast
next
  assume h: "purchaseTickets1 a xs s = (Inr u, s')"
  have pr: "price (\<lambda>t. price_of (TICKET_PRICES1 t)) xs =
              aggregate ADULT xs * 25 + aggregate CHILD xs * 15 + aggregate INFANT xs * 0"
    by (simp add: price_def price_of_def)
  from purchaseTickets1_success [OF h]
  have acc: "accepted (Fin 25) True a xs"
    and s': "s' = s @ [makePayment a (Fin (price (\<lambda>t. price_of (TICKET_PRICES1 t)) xs)),
                       reserveSeat a (Fin (seats xs))]"
    by (simp_all add: pr)
  note n = accepted_has_adult [OF acc]
  from n show "1 \<le> aggregate ADULT xs" by simp
  from s' show "s' = s @ [makePayment a (Fin (price (\<lambda>t. price_of (TICKET_PRICES1 t)) xs)),
                   reserveSeat a (Fin (seats xs))]" .
  from n show "1 \<le> seats xs" by (simp add: seats_def)
  from price_lower_bound [OF n, of "\<lambda>t. price_of (TICKET_PRICES1 t)"]
  show "25 \<le> price (\<lambda>t. price_of (TICKET_PRICES1 t)) xs" by (simp add: price_of_def)
qed

theorem successful_purchase_has_an_adult_witness:
  "Config_constructor Map.empty =
     Inr \<lparr>maxTickets = Fin 25,
          ticketPrices = (\<lambda>t. case t of INFANT \<Rightarrow> Fin 0 | CHILD \<Rightarrow> Fin 15 | ADULT \<Rightarrow> Fin 25),
          enforceInfantAdultRatio = True, nodeEnv = ''development''\<rparr>
   \<and> purchaseTickets2
        (TicketService_constructor
           \<lparr>maxTickets = Fin 25,
            ticketPrices = (\<lambda>t. case t of INFANT \<Rightarrow> Fin 0 | CHILD \<Rightarrow> Fin 15 | ADULT \<Rightarrow> Fin 25),
            enforceInfantAdultRatio = True, nodeEnv = ''development''\<rparr>)
        (Num 1) [Instance (TicketTypeRequest ADULT 1), Instance (TicketTypeRequest INFANT 1)] []
      = (Inr (), [makePayment (Num 1) (Fin 25), reserveSeat (Num 1) (Fin 1)])
   \<and> purchaseTickets1
        (Num 1) [Instance (TicketTypeRequest ADULT 1), Instance (TicketTypeRequest INFANT 1)] []
      = (Inr (), [makePayment (Num 1) (Fin 25), reserveSeat (Num 1) (Fin 1)])
   \<and> is_finite (Fin 25) \<and> is_finite (Fin 15) \<and> is_finite (Fin 0)
   \<and> exact_range (\<lambda>t. case t of INFANT \<Rightarrow> Fin 0 | CHILD \<Rightarrow> Fin 15 | ADULT \<Rightarrow> Fin 25)
        [Instance (TicketTypeRequest ADULT 1), Instance (TicketTypeRequest INFANT 1)]
   \<and> 1 \<le> aggregate ADULT
        [Instance (TicketTypeRequest ADULT 1), Instance (TicketTypeRequest INFANT 1)]
   \<and> 1 \<le> seats [Instance (TicketTypeRequest ADULT 1), Instance (TicketTypeRequest INFANT 1)]
   \<and> (25::int) \<le> price (\<lambda>t. price_of (TICKET_PRICES1 t))
        [Instance (TicketTypeRequest ADULT 1), Instance (TicketTypeRequest INFANT 1)]"
proof -
  let ?c = "\<lparr>maxTickets = Fin 25,
            ticketPrices = (\<lambda>t. case t of INFANT \<Rightarrow> Fin 0 | CHILD \<Rightarrow> Fin 15 | ADULT \<Rightarrow> Fin 25),
            enforceInfantAdultRatio = True, nodeEnv = ''development''\<rparr>"
  let ?xs = "[Instance (TicketTypeRequest ADULT 1), Instance (TicketTypeRequest INFANT 1)]"
  let ?out = "[makePayment (Num 1) (Fin 25), reserveSeat (Num 1) (Fin 1)]"
  have c: "Config_constructor Map.empty = Inr ?c" by (rule Config_constructor_empty)
  have p2: "purchaseTickets2 (TicketService_constructor ?c) (Num 1) ?xs [] = (Inr (), ?out)"
    by code_simp
  have p1: "purchaseTickets1 (Num 1) ?xs [] = (Inr (), ?out)"
    by code_simp
  have e: "exact_range (\<lambda>t. case t of INFANT \<Rightarrow> Fin 0 | CHILD \<Rightarrow> Fin 15 | ADULT \<Rightarrow> Fin 25) ?xs"
    by (simp add: exact_range_def total_quantity_def quantity_for_def nonneg_price_def
          price_def price_of_def)
  from successful_purchase_has_an_adult [of Map.empty ?c "Num 1" ?xs "[]" "()" ?out] c p2 p1 e
  show ?thesis by (simp add: is_finite_def)
qed

text \<open>
  C8. Whenever the configuration holds its default values (maxTickets 25, prices Adult 25,
  Child 15, Infant 0, ratio rule enforced), the configured version of the service gives, for
  every account, request list and history, the same outcome as the first version: the same
  error, or the same two collaborator calls with the same arguments.
\<close>

theorem default_configuration_gives_the_first_version:
  assumes "maxTickets config = Fin 25" and "ticketPrices config ADULT = Fin 25"
    and "ticketPrices config CHILD = Fin 15" and "ticketPrices config INFANT = Fin 0"
    and "enforceInfantAdultRatio config"
  shows "purchaseTickets2 (TicketService_constructor config) a xs s = purchaseTickets1 a xs s"
  using assms by (intro purchaseTickets2_defaults) (simp_all add: TicketService_constructor_def)

theorem default_configuration_gives_the_first_version_witness:
  "Config_constructor Map.empty =
     Inr \<lparr>maxTickets = Fin 25,
          ticketPrices = (\<lambda>t. case t of INFANT \<Rightarrow> Fin 0 | CHILD \<Rightarrow> Fin 15 | ADULT \<Rightarrow> Fin 25),
          enforceInfantAdultRatio = True, nodeEnv = ''development''\<rparr>
   \<and> purchaseTickets2
        (TicketService_constructor
           \<lparr>maxTickets = Fin 25,
            ticketPrices = (\<lambda>t. case t of INFANT \<Rightarrow> Fin 0 | CHILD \<Rightarrow> Fin 15 | ADULT \<Rightarrow> Fin 25),
            enforceInfantAdultRatio = True, nodeEnv = ''development''\<rparr>)
        (Num 1) [Instance (TicketTypeRequest ADULT 1), Instance (TicketTypeRequest INFANT 2)] []
      = purchaseTickets1
        (Num 1) [Instance (TicketTypeRequest ADULT 1), Instance (TicketTypeRequest INFANT 2)] []
   \<and> purchaseTickets1
        (Num 1) [Instance (TicketTypeRequest ADULT 1), Instance (TicketTypeRequest INFANT 2)] []
      = (Inl InfantRatioExceeded, [])"
proof -
  let ?c = "\<lparr>maxTickets = Fin 25,
            ticketPrices = (\<lambda>t. case t of INFANT \<Rightarrow> Fin 0 | CHILD \<Rightarrow> Fin 15 | ADULT \<Rightarrow> Fin 25),
            enforceInfantAdultRatio = True, nodeEnv = ''development''\<rparr>"
  have e: "purchaseTickets2 (TicketService_constructor ?c) (Num 1)
             [Instance (TicketTypeRequest ADULT 1), Instance (TicketTypeRequest INFANT 2)] []
           = purchaseTickets1 (Num 1)
             [Instance (TicketTypeRequest ADULT 1), Instance (TicketTypeRequest INFANT 2)] []"
    by (rule default_configuration_gives_the_first_version) simp_all
  have r: "purchaseTickets1 (Num 1)
             [Instance (TicketTypeRequest ADULT 1), Instance (TicketTypeRequest INFANT 2)] []
           = (Inl InfantRatioExceeded, [])"
    by code_simp
  from Config_constructor_empty e r show ?thesis by simp
qed

text \<open>
  C9. Building the configuration establishes and enforces the pricing invariant. With none
  of the five variables set (or set to the empty string) it yields maxTickets 25, prices
  Adult 25, Child 15, Infant 0 and the ratio rule enforced. Every configuration it yields
  has a positive maxTickets, no negative price and a strictly positive Adult price. And it
  fails whenever the values read are a maxTickets that is not positive, a negative price of
  any category, or an Adult price that is not strictly positive.
\<close>

theorem configuration_defaults_and_validation:
  "((\<forall>key \<in> {''MAX_TICKETS'', ''TICKET_PRICE_INFANT'', ''TICKET_PRICE_CHILD'',
               ''TICKET_PRICE_ADULT'', ''ENFORCE_INFANT_ADULT_RATIO''}.
        process_env key = None \<or> process_env key = Some []) \<longrightarrow>
      (\<exists>config. Config_constructor process_env = Inr config
         \<and> maxTickets config = Fin 25 \<and> ticketPrices config ADULT = Fin 25
         \<and> ticketPrices config CHILD = Fin 15 \<and> ticketPrices config INFANT = Fin 0
         \<and> enforceInfantAdultRatio config))
   \<and> (Config_constructor process_env = Inr config \<longrightarrow>
        num_lt (Fin 0) (maxTickets config) \<and> (\<forall>t. num_le (Fin 0) (ticketPrices config t))
        \<and> num_lt (Fin 0) (ticketPrices config ADULT))
   \<and> (getEnvAsInt process_env ''MAX_TICKETS'' (Fin 25) = Inr m
      \<and> getEnvAsInt process_env ''TICKET_PRICE_INFANT'' (Fin 0) = Inr i
      \<and> getEnvAsInt process_env ''TICKET_PRICE_CHILD'' (Fin 15) = Inr c
      \<and> getEnvAsInt process_env ''TICKET_PRICE_ADULT'' (Fin 25) = Inr d
      \<and> (num_le m (Fin 0) \<or> num_lt i (Fin 0) \<or> num_lt c (Fin 0) \<or> num_lt d (Fin 0)
           \<or> num_le d (Fin 0)) \<longrightarrow>
        (\<exists>e. Config_constructor process_env = Inl e))"
proof (intro conjI impI)
  assume d: "\<forall>key \<in> {''MAX_TICKETS'', ''TICKET_PRICE_INFANT'', ''TICKET_PRICE_CHILD'',
               ''TICKET_PRICE_ADULT'', ''ENFORCE_INFANT_ADULT_RATIO''}.
        process_env key = None \<or> process_env key = Some []"
  then have "getEnvAsInt process_env ''MAX_TICKETS'' (Fin 25) = Inr (Fin 25)"
    "getEnvAsInt process_env ''TICKET_PRICE_INFANT'' (Fin 0) = Inr (Fin 0)"
    "getEnvAsInt process_env ''TICKET_PRICE_CHILD'' (Fin 15) = Inr (Fin 15)"
    "getEnvAsInt process_env ''TICKET_PRICE_ADULT'' (Fin 25) = Inr (Fin 25)"
    "getEnvAsBool process_env ''ENFORCE_INFANT_ADULT_RATIO'' True = True"
    by (simp_all add: getEnvAsInt_default getEnvAsBool_default)
  then show "\<exists>config. Config_constructor process_env = Inr config
         \<and> maxTickets config = Fin 25 \<and> ticketPrices config ADULT = Fin 25
         \<and> ticketPrices config CHILD = Fin 15 \<and> ticketPrices config INFANT = Fin 0
         \<and> enforceInfantAdultRatio config"
    by (simp add: Config_constructor_def validate_def num_le_def)
next
  assume cfg: "Config_constructor process_env = Inr config"
  note n = Config_constructor_Inr [OF cfg]
  from n(1) have v: "\<not> num_le (maxTickets config) (Fin 0)"
    "\<not> num_lt (ticketPrices config INFANT) (Fin 0)"
    "\<not> num_lt (ticketPrices config CHILD) (Fin 0)"
    "\<not> num_lt (ticketPrices config ADULT) (Fin 0)"
    "\<not> num_le (ticketPrices config ADULT) (Fin 0)"
    by (simp_all add: validate_Inr_iff)
  from v(1) n(2) show "num_lt (Fin 0) (maxTickets config)" by (simp add: num_le_def)
  from v(5) n(3) [of ADULT] show "num_lt (Fin 0) (ticketPrices config ADULT)"
    by (simp add: num_le_def)
  show "\<forall>t. num_le (Fin 0) (ticketPrices config t)"
  proof
    fix t from v(2,3,4) n(3) [of t] show "num_le (Fin 0) (ticketPrices config t)"
      by (cases t) (simp_all add: num_le_def)
  qed
next
  assume "getEnvAsInt process_env ''MAX_TICKETS'' (Fin 25) = Inr m
      \<and> getEnvAsInt process_env ''TICKET_PRICE_INFANT'' (Fin 0) = Inr i
      \<and> getEnvAsInt process_env ''TICKET_PRICE_CHILD'' (Fin 15) = Inr c
      \<and> getEnvAsInt process_env ''TICKET_PRICE_ADULT'' (Fin 25) = Inr d
      \<and> (num_le m (Fin 0) \<or> num_lt i (Fin 0) \<or> num_lt c (Fin 0) \<or> num_lt d (Fin 0)
           \<or> num_le d (Fin 0))"
  then show "\<exists>e. Config_constructor process_env = Inl e"
    by (auto simp: Config_constructor_def validate_def Let_def)
qed

theorem configuration_defaults_and_validation_witness:
  "(Map.empty :: env) ''MAX_TICKETS'' = None
   \<and> (Map.empty :: env) ''TICKET_PRICE_INFANT'' = None
   \<and> (Map.empty :: env) ''TICKET_PRICE_CHILD'' = None
   \<and> (Map.empty :: env) ''TICKET_PRICE_ADULT'' = None
   \<and> (Map.empty :: env) ''ENFORCE_INFANT_ADULT_RATIO'' = None
   \<and> Config_constructor Map.empty =
       Inr \<lparr>maxTickets = Fin 25,
            ticketPrices = (\<lambda>t. case t of INFANT \<Rightarrow> Fin 0 | CHILD \<Rightarrow> Fin 15 | ADULT \<Rightarrow> Fin 25),
            enforceInfantAdultRatio = True, nodeEnv = ''development''\<rparr>
   \<and> getEnvAsInt [''TICKET_PRICE_ADULT'' \<mapsto> ''0'', ''MAX_TICKETS'' \<mapsto> '' 30 seats'']
        ''MAX_TICKETS'' (Fin 25) = Inr (Fin 30)
   \<and> getEnvAsInt [''TICKET_PRICE_ADULT'' \<mapsto> ''0'', ''MAX_TICKETS'' \<mapsto> '' 30 seats'']
        ''TICKET_PRICE_INFANT'' (Fin 0) = Inr (Fin 0)
   \<and> getEnvAsInt [''TICKET_PRICE_ADULT'' \<mapsto> ''0'', ''MAX_TICKETS'' \<mapsto> '' 30 seats'']
        ''TICKET_PRICE_CHILD'' (Fin 15) = Inr (Fin 15)
   \<and> getEnvAsInt [''TICKET_PRICE_ADULT'' \<mapsto> ''0'', ''MAX_TICKETS'' \<mapsto> '' 30 seats'']
        ''TICKET_PRICE_ADULT'' (Fin 25) = Inr (Fin 0)
   \<and> num_le (Fin 0) (Fin 0)
   \<and> Config_constructor [''TICKET_PRICE_ADULT'' \<mapsto> ''0'', ''MAX_TICKETS'' \<mapsto> '' 30 seats'']
       = Inl AdultPriceNotPositive"
proof -
  let ?c = "\<lparr>maxTickets = Fin 25,
            ticketPrices = (\<lambda>t. case t of INFANT \<Rightarrow> Fin 0 | CHILD \<Rightarrow> Fin 15 | ADULT \<Rightarrow> Fin 25),
            enforceInfantAdultRatio = True, nodeEnv = ''development''\<rparr>"
  let ?e = "[''TICKET_PRICE_ADULT'' \<mapsto> ''0'', ''MAX_TICKETS'' \<mapsto> '' 30 seats'']"
  have c: "Config_constructor Map.empty = Inr ?c" by (rule Config_constructor_empty)
  have m: "getEnvAsInt ?e ''MAX_TICKETS'' (Fin 25) = Inr (Fin 30)"
    by (simp add: getEnvAsInt_def parseInt10_def isWhiteSpace_def isDigit_def digitValue_def
          Let_def number_value_exact isNaN_def)
  have i: "getEnvAsInt ?e ''TICKET_PRICE_INFANT'' (Fin 0) = Inr (Fin 0)"
    by (simp add: getEnvAsInt_def)
  have ch: "getEnvAsInt ?e ''TICKET_PRICE_CHILD'' (Fin 15) = Inr (Fin 15)"
    by (simp add: getEnvAsInt_def)
  have d: "getEnvAsInt ?e ''TICKET_PRICE_ADULT'' (Fin 25) = Inr (Fin 0)"
    by (simp add: getEnvAsInt_def parseInt10_def isWhiteSpace_def isDigit_def digitValue_def
          Let_def number_value_exact isNaN_def)
  have z: "num_le (Fin 0) (Fin 0)" by (simp add: num_le_def)
  have r: "Config_constructor ?e = Inl AdultPriceNotPositive"
    using configuration_defaults_and_validation [of ?e ?c "Fin 30" "Fin 0" "Fin 15" "Fin 0"]
      m i ch d
    by (simp add: Config_constructor_def validate_def num_le_def)
  from configuration_defaults_and_validation
         [of Map.empty ?c "Fin 25" "Fin 0" "Fin 15" "Fin 25"] c m i ch d z r
  show ?thesis by simp
qed

text \<open>
  C10. Validation is deterministic: two runs of the purchase on the same accountId, the same
  request list and the same configuration yield the same outcome, whatever calls were made
  before each run (the second run may well come after the first): either both succeed and
  add the same two calls, with the same price and seat totals, or both fail with the same
  error and add nothing.
\<close>

theorem purchase_outcome_is_a_function_of_its_input:
  "fst (purchaseTickets2 this a xs s) = fst (purchaseTickets2 this a xs s')
   \<and> drop (length s) (snd (purchaseTickets2 this a xs s))
       = drop (length s') (snd (purchaseTickets2 this a xs s'))
   \<and> fst (purchaseTickets1 a xs s) = fst (purchaseTickets1 a xs s')
   \<and> drop (length s) (snd (purchaseTickets1 a xs s))
       = drop (length s') (snd (purchaseTickets1 a xs s'))"
  using purchaseTickets2_history [of this a xs s] purchaseTickets2_history [of this a xs s']
        purchaseTickets1_history [of a xs s] purchaseTickets1_history [of a xs s']
  by (metis append_eq_conv_conj fst_conv snd_conv)

theorem purchase_outcome_is_a_function_of_its_input_witness:
  "fst (purchaseTickets1 (Num 1) [Instance (TicketTypeRequest ADULT 1)] [])
     = fst (purchaseTickets1 (Num 1) [Instance (TicketTypeRequest ADULT 1)]
              [makePayment (Num 1) (Fin 25), reserveSeat (Num 1) (Fin 1)])
   \<and> drop (length ([] :: call list))
        (snd (purchaseTickets1 (Num 1) [Instance (TicketTypeRequest ADULT 1)] []))
     = drop (length [makePayment (Num 1) (Fin 25), reserveSeat (Num 1) (Fin 1)])
        (snd (purchaseTickets1 (Num 1) [Instance (TicketTypeRequest ADULT 1)]
                [makePayment (Num 1) (Fin 25), reserveSeat (Num 1) (Fin 1)]))
   \<and> purchaseTickets1 (Num 1) [Instance (TicketTypeRequest ADULT 1)] []
     = (Inr (), [makePayment (Num 1) (Fin 25), reserveSeat (Num 1) (Fin 1)])"
proof -
  have r: "purchaseTickets1 (Num 1) [Instance (TicketTypeRequest ADULT 1)] []
     = (Inr (), [makePayment (Num 1) (Fin 25), reserveSeat (Num 1) (Fin 1)])"
    by code_simp
  from purchase_outcome_is_a_function_of_its_input
         [of _ "Num 1" "[Instance (TicketTypeRequest ADULT 1)]" "[]"
             "[makePayment (Num 1) (Fin 25), reserveSeat (Num 1) (Fin 1)]"] r
  show ?thesis by blast
qed

end
